theory Spec2Isabelle
  imports Complex_Main "HOL-Library.Word"
begin

unbundle bit_operations_syntax

section \<open>Errors\<close>

text \<open>
  Every \<^verbatim>\<open>throw\<close> of the JavaScript source is a value of type \<open>error\<close>; a
  computation that may throw returns \<open>error + 'a\<close>, with \<open>Inl\<close> for the
  exception. \<open>QueryError m\<close> stands for an \<^verbatim>\<open>Error\<close> object with message
  \<open>m\<close> thrown by a user-supplied query callback, \<open>TypeError\<close> for a method
  call on \<^verbatim>\<open>undefined\<close>.
\<close>

datatype error = DivisionByZero | TimeSpansDoNotIntersect | TypeError | QueryError string

definition bindE :: "error + 'a \<Rightarrow> ('a \<Rightarrow> error + 'b) \<Rightarrow> error + 'b" where
  "bindE m f = (case m of Inl e \<Rightarrow> Inl e | Inr x \<Rightarrow> f x)"

text \<open>\<^verbatim>\<open>xs.map(f)\<close> for an \<open>f\<close> that may throw: the first exception, from
  left to right, ends the map.\<close>

fun mapE :: "('a \<Rightarrow> error + 'b) \<Rightarrow> 'a list \<Rightarrow> error + 'b list" where
  "mapE f [] = Inr []"
| "mapE f (x # xs) =
     (case f x of
        Inl e \<Rightarrow> Inl e
      | Inr y \<Rightarrow> (case mapE f xs of Inl e \<Rightarrow> Inl e | Inr ys \<Rightarrow> Inr (y # ys)))"

text \<open>\<^verbatim>\<open>flatten(xs.map(f))\<close>.\<close>

definition flatMapE :: "('a \<Rightarrow> error + 'b list) \<Rightarrow> 'a list \<Rightarrow> error + 'b list" where
  "flatMapE f xs = bindE (mapE f xs) (\<lambda>yss. Inr (concat yss))"

text \<open>The text of \<^verbatim>\<open>err.message\<close>. A thrown string has no \<^verbatim>\<open>message\<close>
  property, so the template literal prints \<^verbatim>\<open>undefined\<close>.\<close>

fun message :: "error \<Rightarrow> string" where
  "message DivisionByZero = ''Division by Zero''"
| "message TimeSpansDoNotIntersect = ''undefined''"
| "message TypeError = ''Cannot read properties of undefined''"
| "message (QueryError m) = m"

section \<open>Rationals\<close>

text \<open>
  Modelled from the spec: the \<^verbatim>\<open>Fraction\<close> class of fraction.mjs, which is not
  among the sources. The spec describes it as exact fractions, normalised, with
  add/sub/mul/div, ordering, \<open>floor\<close>, \<open>sam\<close> (the start of the current cycle),
  \<open>nextSam\<close>, \<open>cyclePos\<close> and lcm. Times are values of type \<open>rat\<close>. A normalised
  numerator/denominator pair has no value for a zero divisor, so \<open>div\<close> by zero is an
  exception (the source of \<^verbatim>\<open>pace\<close> and the spec both speak of avoiding the
  "divide by zero").
\<close>

definition sam :: "rat \<Rightarrow> rat" where
  "sam t = of_int \<lfloor>t\<rfloor>"

definition nextSam :: "rat \<Rightarrow> rat" where
  "nextSam t = sam t + 1"

definition cyclePos :: "rat \<Rightarrow> rat" where
  "cyclePos t = t - sam t"

definition fdiv :: "rat \<Rightarrow> rat \<Rightarrow> error + rat" where
  "fdiv a b = (if b = 0 then Inl DivisionByZero else Inr (a / b))"

text \<open>Modelled from the spec: the least common multiple of two fractions,
  \<open>lcm (a/b) (c/d) = lcm a c / gcd b d\<close> on normalised fractions.\<close>

definition lcm_rat :: "rat \<Rightarrow> rat \<Rightarrow> rat" where
  "lcm_rat x y =
     (case quotient_of x of (a, b) \<Rightarrow>
        (case quotient_of y of (c, d) \<Rightarrow>
           if a = 0 \<and> c = 0 then 0 else Fract (lcm a c) (gcd b d)))"

text \<open>Modelled from the spec: \<^verbatim>\<open>lcm(...fractions)\<close> of fraction.mjs, used on the
  \<open>steps\<close> of several patterns: undefined entries are skipped, and the result is
  undefined when nothing is left.\<close>

definition lcm_steps :: "rat option list \<Rightarrow> rat option" where
  "lcm_steps xs =
     (case rev (concat (map (\<lambda>x. case x of None \<Rightarrow> [] | Some r \<Rightarrow> [r]) xs)) of
        [] \<Rightarrow> None
      | r # rs \<Rightarrow> Some (foldl lcm_rat r (rev rs)))"

text \<open>An argument that the source passes through \<^verbatim>\<open>Fraction(..)\<close>: a JavaScript
  number, a \<^verbatim>\<open>Fraction\<close> object or \<^verbatim>\<open>undefined\<close>. Numbers are taken at the
  rational they denote; the distinction matters where the source compares with
  \<^verbatim>\<open>=== 0\<close>, which only a number satisfies. Modelled from the spec (fraction.mjs is
  not among the sources, and the spec is silent here): the fraction of an absent value
  is zero.\<close>

datatype jsnum = Num rat | Frac rat | Undefined

fun Fraction :: "jsnum \<Rightarrow> rat" where
  "Fraction (Num r) = r"
| "Fraction (Frac r) = r"
| "Fraction Undefined = 0"

definition jsnum_of_steps :: "rat option \<Rightarrow> jsnum" where
  "jsnum_of_steps s = (case s of None \<Rightarrow> Undefined | Some r \<Rightarrow> Frac r)"

section \<open>Timespans\<close>

text \<open>
  Modelled from the spec: the \<^verbatim>\<open>TimeSpan\<close> class of timespan.mjs, which is not
  among the sources: \<open>{begin, end}\<close>, \<open>withTime\<close> mapping both ends,
  \<open>intersection\<close> (empty intersection gives nothing; adjacent endpoints do not
  intersect), \<open>intersection_e\<close> (an exception instead of nothing) and \<open>spanCycles\<close>
  (the span split at every integer boundary strictly inside it).
\<close>

record timespan =
  tbegin :: rat
  tend :: rat

definition TimeSpan :: "rat \<Rightarrow> rat \<Rightarrow> timespan" where
  "TimeSpan b e = \<lparr>tbegin = b, tend = e\<rparr>"

definition withTime :: "(rat \<Rightarrow> rat) \<Rightarrow> timespan \<Rightarrow> timespan" where
  "withTime f ts = TimeSpan (f (tbegin ts)) (f (tend ts))"

definition withTimeE :: "(rat \<Rightarrow> error + rat) \<Rightarrow> timespan \<Rightarrow> error + timespan" where
  "withTimeE f ts =
     bindE (f (tbegin ts)) (\<lambda>b. bindE (f (tend ts)) (\<lambda>e. Inr (TimeSpan b e)))"

definition wholeCycle :: "rat \<Rightarrow> timespan" where
  "wholeCycle t = TimeSpan (sam t) (nextSam t)"

text \<open>A point intersection does not count when the point is the end of a span of
  non-zero width.\<close>

definition intersection :: "timespan \<Rightarrow> timespan \<Rightarrow> timespan option" where
  "intersection a b =
     (let intersect_begin = max (tbegin a) (tbegin b);
          intersect_end = min (tend a) (tend b)
      in if intersect_begin > intersect_end then None
         else if intersect_begin = intersect_end
                 \<and> ((intersect_begin = tend a \<and> tbegin a < tend a)
                    \<or> (intersect_begin = tend b \<and> tbegin b < tend b))
         then None
         else Some (TimeSpan intersect_begin intersect_end))"

definition intersection_e :: "timespan \<Rightarrow> timespan \<Rightarrow> error + timespan" where
  "intersection_e a b =
     (case intersection a b of None \<Rightarrow> Inl TimeSpansDoNotIntersect | Some s \<Rightarrow> Inr s)"

text \<open>The loop of \<open>spanCycles\<close>: while \<open>end > begin\<close>, emit the piece up to the next
  cycle boundary, or the rest when \<open>begin\<close> and \<open>end\<close> are in the same cycle.\<close>

function cycles_from :: "rat \<Rightarrow> rat \<Rightarrow> timespan list" where
  "cycles_from b e =
     (if e > b then
        (if sam b = sam e then [TimeSpan b e]
         else TimeSpan b (nextSam b) # cycles_from (nextSam b) e)
      else [])"
  by pat_completeness auto
termination
proof (relation "measure (\<lambda>(b, e). nat (\<lfloor>e\<rfloor> - \<lfloor>b\<rfloor>))")
  show "wf (measure (\<lambda>(b, e). nat (\<lfloor>e\<rfloor> - \<lfloor>b\<rfloor>)))" by simp
next
  fix b e :: rat
  assume lt: "b < e" and ne: "sam b \<noteq> sam e"
  have le: "\<lfloor>b\<rfloor> \<le> \<lfloor>e\<rfloor>" using lt by (simp add: floor_mono)
  have "\<lfloor>b\<rfloor> \<noteq> \<lfloor>e\<rfloor>" using ne by (auto simp: sam_def)
  then have "\<lfloor>b\<rfloor> < \<lfloor>e\<rfloor>" using le by simp
  moreover have "\<lfloor>nextSam b\<rfloor> = \<lfloor>b\<rfloor> + 1" by (simp add: nextSam_def sam_def)
  ultimately show "((nextSam b, e), (b, e)) \<in> measure (\<lambda>(b, e). nat (\<lfloor>e\<rfloor> - \<lfloor>b\<rfloor>))"
    by simp
qed

declare cycles_from.simps [simp del]

definition spanCycles :: "timespan \<Rightarrow> timespan list" where
  "spanCycles ts =
     (if tbegin ts = tend ts then [TimeSpan (tbegin ts) (tend ts)]
      else cycles_from (tbegin ts) (tend ts))"

section \<open>Events and query states\<close>

text \<open>
  Modelled from the spec: the \<^verbatim>\<open>Hap\<close> class of hap.mjs and the \<^verbatim>\<open>State\<close> class
  of state.mjs, which are not among the sources. An event is
  \<open>{whole?, part, value, context}\<close>; of the context bag only the source locations are
  kept, the one key the source of pattern.mjs itself reads and writes (absent in the
  empty context \<open>{}\<close>). A state is \<open>{span, controls}\<close>.
\<close>

type_synonym location = "nat \<times> nat"

record hap_context =
  locations :: "location list option"

definition empty_context :: hap_context where
  "empty_context = \<lparr>locations = None\<rparr>"

record 'v hap =
  whole :: "timespan option"
  part :: timespan
  hvalue :: 'v
  hcontext :: hap_context

definition Hap :: "timespan option \<Rightarrow> timespan \<Rightarrow> 'v \<Rightarrow> hap_context \<Rightarrow> 'v hap" where
  "Hap w p v c = \<lparr>whole = w, part = p, hvalue = v, hcontext = c\<rparr>"

definition wholeOrPart :: "'v hap \<Rightarrow> timespan" where
  "wholeOrPart h = (case whole h of Some w \<Rightarrow> w | None \<Rightarrow> part h)"

definition hap_withSpan :: "(timespan \<Rightarrow> timespan) \<Rightarrow> 'v hap \<Rightarrow> 'v hap" where
  "hap_withSpan f h = Hap (map_option f (whole h)) (f (part h)) (hvalue h) (hcontext h)"

definition hap_withSpanE :: "(timespan \<Rightarrow> error + timespan) \<Rightarrow> 'v hap \<Rightarrow> error + 'v hap" where
  "hap_withSpanE f h =
     bindE (case whole h of None \<Rightarrow> Inr None | Some w \<Rightarrow> bindE (f w) (\<lambda>w'. Inr (Some w')))
       (\<lambda>w'. bindE (f (part h)) (\<lambda>p'. Inr (Hap w' p' (hvalue h) (hcontext h))))"

definition hap_withValue :: "('v \<Rightarrow> 'w) \<Rightarrow> 'v hap \<Rightarrow> 'w hap" where
  "hap_withValue f h = Hap (whole h) (part h) (f (hvalue h)) (hcontext h)"

definition hap_setContext :: "hap_context \<Rightarrow> 'v hap \<Rightarrow> 'v hap" where
  "hap_setContext c h = Hap (whole h) (part h) (hvalue h) c"

definition locations_or_empty :: "hap_context \<Rightarrow> location list" where
  "locations_or_empty c = (case locations c of None \<Rightarrow> [] | Some l \<Rightarrow> l)"

text \<open>\<^verbatim>\<open>a.combineContext(b)\<close>: the locations of both, concatenated.\<close>

definition combineContext :: "'v hap \<Rightarrow> 'w hap \<Rightarrow> hap_context" where
  "combineContext a b =
     \<lparr>locations = Some (locations_or_empty (hcontext a) @ locations_or_empty (hcontext b))\<rparr>"

record 'c state =
  span :: timespan
  controls :: 'c

definition State :: "timespan \<Rightarrow> 'c \<Rightarrow> 'c state" where
  "State s c = \<lparr>span = s, controls = c\<rparr>"

definition setSpan :: "timespan \<Rightarrow> 'c state \<Rightarrow> 'c state" where
  "setSpan s st = State s (controls st)"

definition state_withSpan :: "(timespan \<Rightarrow> timespan) \<Rightarrow> 'c state \<Rightarrow> 'c state" where
  "state_withSpan f st = State (f (span st)) (controls st)"

section \<open>Patterns\<close>

text \<open>
  A pattern is its query function and its optional \<open>steps\<close>
  (\<^verbatim>\<open>class Pattern\<close>, pattern.mjs). A query may throw. The process-wide flag
  \<^verbatim>\<open>__steps\<close>, set by \<^verbatim>\<open>calculateSteps\<close>, is the argument \<open>cs\<close> of every
  function that reads it. Patterns are values here: where the source assigns
  \<^verbatim>\<open>_steps\<close> of a pattern it has just built, the model builds the pattern with
  those steps.
\<close>

record ('v, 'c) pattern =
  query :: "'c state \<Rightarrow> error + 'v hap list"
  steps :: "rat option"

definition Pattern :: "('c state \<Rightarrow> error + 'v hap list) \<Rightarrow> rat option \<Rightarrow> ('v, 'c) pattern" where
  "Pattern q s = \<lparr>query = q, steps = s\<rparr>"

definition setSteps :: "rat option \<Rightarrow> ('v, 'c) pattern \<Rightarrow> ('v, 'c) pattern" where
  "setSteps s p = Pattern (query p) s"

definition hasSteps :: "('v, 'c) pattern \<Rightarrow> bool" where
  "hasSteps p = (steps p \<noteq> None)"

definition withSteps :: "bool \<Rightarrow> (rat \<Rightarrow> rat) \<Rightarrow> ('v, 'c) pattern \<Rightarrow> ('v, 'c) pattern" where
  "withSteps cs f p = (if \<not> cs then p else Pattern (query p) (map_option f (steps p)))"

subsection \<open>Elemental patterns\<close>

definition gap :: "rat \<Rightarrow> ('v, 'c) pattern" where
  "gap n = Pattern (\<lambda>st. Inr []) (Some n)"

definition silence :: "('v, 'c) pattern" where
  "silence = gap 1"

definition nothing :: "('v, 'c) pattern" where
  "nothing = gap 0"

definition pure :: "'v \<Rightarrow> ('v, 'c) pattern" where
  "pure v =
     Pattern (\<lambda>st. Inr (map (\<lambda>subspan. Hap (Some (wholeCycle (tbegin subspan))) subspan v empty_context)
                          (spanCycles (span st))))
             (Some 1)"

subsection \<open>Utility methods\<close>

definition withValue :: "('v \<Rightarrow> 'w) \<Rightarrow> ('v, 'c) pattern \<Rightarrow> ('w, 'c) pattern" where
  "withValue func p =
     Pattern (\<lambda>st. bindE (query p st) (\<lambda>haps. Inr (map (hap_withValue func) haps))) (steps p)"

definition fmap :: "('v \<Rightarrow> 'w) \<Rightarrow> ('v, 'c) pattern \<Rightarrow> ('w, 'c) pattern" where
  "fmap func p = withValue func p"

definition splitQueries :: "('v, 'c) pattern \<Rightarrow> ('v, 'c) pattern" where
  "splitQueries pat =
     Pattern (\<lambda>st. flatMapE (\<lambda>subspan. query pat (setSpan subspan st)) (spanCycles (span st))) None"

definition withQuerySpan :: "(timespan \<Rightarrow> timespan) \<Rightarrow> ('v, 'c) pattern \<Rightarrow> ('v, 'c) pattern" where
  "withQuerySpan func p = Pattern (\<lambda>st. query p (state_withSpan func st)) None"

definition withQueryTime :: "(rat \<Rightarrow> rat) \<Rightarrow> ('v, 'c) pattern \<Rightarrow> ('v, 'c) pattern" where
  "withQueryTime func p = Pattern (\<lambda>st. query p (state_withSpan (withTime func) st)) None"

definition withHapSpan :: "(timespan \<Rightarrow> timespan) \<Rightarrow> ('v, 'c) pattern \<Rightarrow> ('v, 'c) pattern" where
  "withHapSpan func p =
     Pattern (\<lambda>st. bindE (query p st) (\<lambda>haps. Inr (map (hap_withSpan func) haps))) None"

definition withHapTime :: "(rat \<Rightarrow> rat) \<Rightarrow> ('v, 'c) pattern \<Rightarrow> ('v, 'c) pattern" where
  "withHapTime func p = withHapSpan (withTime func) p"

text \<open>\<open>withHapSpan\<close> and \<open>withHapTime\<close> for a function that may throw (a division).\<close>

definition withHapSpanE ::
  "(timespan \<Rightarrow> error + timespan) \<Rightarrow> ('v, 'c) pattern \<Rightarrow> ('v, 'c) pattern" where
  "withHapSpanE func p = Pattern (\<lambda>st. bindE (query p st) (mapE (hap_withSpanE func))) None"

definition withHapTimeE :: "(rat \<Rightarrow> error + rat) \<Rightarrow> ('v, 'c) pattern \<Rightarrow> ('v, 'c) pattern" where
  "withHapTimeE func p = withHapSpanE (withTimeE func) p"

definition withHaps ::
  "('v hap list \<Rightarrow> 'c state \<Rightarrow> 'w hap list) \<Rightarrow> ('v, 'c) pattern \<Rightarrow> ('w, 'c) pattern" where
  "withHaps func p =
     Pattern (\<lambda>st. bindE (query p st) (\<lambda>haps. Inr (func haps st))) (steps p)"

definition withHap :: "('v hap \<Rightarrow> 'w hap) \<Rightarrow> ('v, 'c) pattern \<Rightarrow> ('w, 'c) pattern" where
  "withHap func p = withHaps (\<lambda>haps st. map func haps) p"

definition withContext :: "(hap_context \<Rightarrow> hap_context) \<Rightarrow> ('v, 'c) pattern \<Rightarrow> ('v, 'c) pattern" where
  "withContext func p = withHap (\<lambda>hap. hap_setContext (func (hcontext hap)) hap) p"

definition filterHaps :: "('v hap \<Rightarrow> bool) \<Rightarrow> ('v, 'c) pattern \<Rightarrow> ('v, 'c) pattern" where
  "filterHaps hap_test p =
     Pattern (\<lambda>st. bindE (query p st) (\<lambda>haps. Inr (filter hap_test haps))) None"

definition filterValues :: "('v \<Rightarrow> bool) \<Rightarrow> ('v, 'c) pattern \<Rightarrow> ('v, 'c) pattern" where
  "filterValues value_test p =
     setSteps (steps p)
       (Pattern (\<lambda>st. bindE (query p st) (\<lambda>haps. Inr (filter (\<lambda>hap. value_test (hvalue hap)) haps)))
          None)"

subsection \<open>Applicative operations\<close>

text \<open>\<^verbatim>\<open>removeUndefineds\<close> (util.mjs) drops the undefined entries of an array.\<close>

definition removeUndefineds :: "'a option list \<Rightarrow> 'a list" where
  "removeUndefineds xs = concat (map (\<lambda>x. case x of None \<Rightarrow> [] | Some y \<Rightarrow> [y]) xs)"

text \<open>The inner function \<^verbatim>\<open>apply\<close> of \<open>appWhole\<close>; \<open>whole_func\<close> may throw.\<close>

definition appWhole_apply ::
  "(timespan option \<Rightarrow> timespan option \<Rightarrow> error + timespan option)
   \<Rightarrow> ('a \<Rightarrow> 'b) hap \<Rightarrow> 'a hap \<Rightarrow> error + 'b hap option" where
  "appWhole_apply whole_func hap_func hap_val =
     (case intersection (part hap_func) (part hap_val) of
        None \<Rightarrow> Inr None
      | Some s \<Rightarrow>
          bindE (whole_func (whole hap_func) (whole hap_val))
            (\<lambda>w. Inr (Some (Hap w s ((hvalue hap_func) (hvalue hap_val))
                               (combineContext hap_val hap_func)))))"

definition appWhole ::
  "(timespan option \<Rightarrow> timespan option \<Rightarrow> error + timespan option)
   \<Rightarrow> ('a \<Rightarrow> 'b, 'c) pattern \<Rightarrow> ('a, 'c) pattern \<Rightarrow> ('b, 'c) pattern" where
  "appWhole whole_func pat_func pat_val =
     Pattern (\<lambda>st.
        bindE (query pat_func st) (\<lambda>hap_funcs.
        bindE (query pat_val st) (\<lambda>hap_vals.
          flatMapE (\<lambda>hap_func.
              bindE (mapE (appWhole_apply whole_func hap_func) hap_vals)
                (\<lambda>xs. Inr (removeUndefineds xs)))
            hap_funcs)))
       None"

text \<open>The \<open>whole_func\<close> of \<open>appBoth\<close> (and of \<open>bind\<close>): the intersection of both
  wholes, an exception when they do not intersect, and no whole when one is absent.\<close>

definition whole_both :: "timespan option \<Rightarrow> timespan option \<Rightarrow> error + timespan option" where
  "whole_both span_a span_b =
     (case span_a of
        None \<Rightarrow> Inr None
      | Some a \<Rightarrow>
          (case span_b of
             None \<Rightarrow> Inr None
           | Some b \<Rightarrow> bindE (intersection_e a b) (\<lambda>w. Inr (Some w))))"

definition appBoth :: "bool \<Rightarrow> ('a \<Rightarrow> 'b, 'c) pattern \<Rightarrow> ('a, 'c) pattern \<Rightarrow> ('b, 'c) pattern" where
  "appBoth cs pat_func pat_val =
     (let result = appWhole whole_both pat_func pat_val
      in if cs then setSteps (lcm_steps [steps pat_val, steps pat_func]) result else result)"

definition appLeft :: "('a \<Rightarrow> 'b, 'c) pattern \<Rightarrow> ('a, 'c) pattern \<Rightarrow> ('b, 'c) pattern" where
  "appLeft pat_func pat_val =
     setSteps (steps pat_func)
       (Pattern (\<lambda>st.
          bindE (query pat_func st)
            (flatMapE (\<lambda>hap_func.
               bindE (query pat_val (setSpan (wholeOrPart hap_func) st)) (\<lambda>hap_vals.
                 Inr (concat (map (\<lambda>hap_val.
                        case intersection (part hap_func) (part hap_val) of
                          None \<Rightarrow> []
                        | Some new_part \<Rightarrow>
                            [Hap (whole hap_func) new_part ((hvalue hap_func) (hvalue hap_val))
                               (combineContext hap_val hap_func)])
                      hap_vals))))))
          None)"

definition appRight :: "('a \<Rightarrow> 'b, 'c) pattern \<Rightarrow> ('a, 'c) pattern \<Rightarrow> ('b, 'c) pattern" where
  "appRight pat_func pat_val =
     setSteps (steps pat_val)
       (Pattern (\<lambda>st.
          bindE (query pat_val st)
            (flatMapE (\<lambda>hap_val.
               bindE (query pat_func (setSpan (wholeOrPart hap_val) st)) (\<lambda>hap_funcs.
                 Inr (concat (map (\<lambda>hap_func.
                        case intersection (part hap_func) (part hap_val) of
                          None \<Rightarrow> []
                        | Some new_part \<Rightarrow>
                            [Hap (whole hap_val) new_part ((hvalue hap_func) (hvalue hap_val))
                               (combineContext hap_val hap_func)])
                      hap_funcs))))))
          None)"

subsection \<open>Registered methods\<close>

text \<open>
  \<^verbatim>\<open>register(name, func, patternify, preserveSteps)\<close> makes two methods of a
  function \<open>func(arg.., pat)\<close>. Called with plain values, the method \<^verbatim>\<open>pat.name(arg..)\<close>
  reifies each value to a \<open>pure\<close> pattern, finds every argument pure, calls
  \<open>func\<close> on the values, appends the (here absent) source locations of the arguments
  to every event's context and, with \<open>preserveSteps\<close>, gives the result the steps of
  \<open>pat\<close>: that is \<open>pfunc\<close>, applied to the result of \<open>func\<close>. The method
  \<^verbatim>\<open>pat._name(arg..)\<close> calls \<open>func\<close> directly and, with \<open>preserveSteps\<close>, sets the
  steps: that is \<open>underscore\<close>. The path of \<^verbatim>\<open>register\<close> for arguments that are
  patterns themselves (a join over \<open>appLeft\<close>) is not modelled.

  Patterns are values here. In the source \<^verbatim>\<open>setSteps\<close> writes to the pattern it is
  called on, so where \<open>func\<close> returns a shared pattern (\<^verbatim>\<open>pat._fast(0)\<close> returns
  \<open>silence\<close>) the method \<^verbatim>\<open>pat._name\<close> changes the steps of that pattern for every
  later user; \<open>underscore\<close> returns a changed copy, and nothing below rests on the
  steps of such a result.
\<close>

definition add_locations :: "location list \<Rightarrow> hap_context \<Rightarrow> hap_context" where
  "add_locations pureLocs c = c\<lparr>locations := Some (locations_or_empty c @ pureLocs)\<rparr>"

definition pfunc :: "bool \<Rightarrow> ('v, 'c) pattern \<Rightarrow> ('w, 'c) pattern \<Rightarrow> ('v, 'c) pattern" where
  "pfunc preserveSteps result pat =
     (let result' = withContext (add_locations []) result
      in if preserveSteps then setSteps (steps pat) result' else result')"

definition underscore :: "bool \<Rightarrow> ('v, 'c) pattern \<Rightarrow> ('w, 'c) pattern \<Rightarrow> ('v, 'c) pattern" where
  "underscore preserveSteps result pat =
     (if preserveSteps then setSteps (steps pat) result else result)"

subsection \<open>fast and slow\<close>

text \<open>The function registered as \<open>fast\<close> (with \<open>preserveSteps\<close>), and its two
  methods \<^verbatim>\<open>pat.fast(factor)\<close> and \<^verbatim>\<open>pat._fast(factor)\<close>.\<close>

definition fast_func :: "jsnum \<Rightarrow> ('v, 'c) pattern \<Rightarrow> ('v, 'c) pattern" where
  "fast_func factor pat =
     (if factor = Num 0 then silence
      else let k = Fraction factor;
               fastQuery = withQueryTime (\<lambda>t. t * k) pat
           in setSteps (steps pat) (withHapTimeE (\<lambda>t. fdiv t k) fastQuery))"

definition fast :: "jsnum \<Rightarrow> ('v, 'c) pattern \<Rightarrow> ('v, 'c) pattern" where
  "fast factor pat = pfunc True (fast_func factor pat) pat"

definition u_fast :: "jsnum \<Rightarrow> ('v, 'c) pattern \<Rightarrow> ('v, 'c) pattern" where
  "u_fast factor pat = underscore True (fast_func factor pat) pat"

text \<open>The function registered as \<open>slow\<close> (without \<open>preserveSteps\<close>); building the
  pattern throws when \<open>1 / factor\<close> does.\<close>

definition slow_func :: "jsnum \<Rightarrow> ('v, 'c) pattern \<Rightarrow> error + ('v, 'c) pattern" where
  "slow_func factor pat =
     (if factor = Num 0 then Inr silence
      else bindE (fdiv 1 (Fraction factor)) (\<lambda>k. Inr (u_fast (Frac k) pat)))"

definition slow :: "jsnum \<Rightarrow> ('v, 'c) pattern \<Rightarrow> error + ('v, 'c) pattern" where
  "slow factor pat = bindE (slow_func factor pat) (\<lambda>result. Inr (pfunc False result pat))"

definition u_slow :: "jsnum \<Rightarrow> ('v, 'c) pattern \<Rightarrow> error + ('v, 'c) pattern" where
  "u_slow factor pat = bindE (slow_func factor pat) (\<lambda>result. Inr (underscore False result pat))"

subsection \<open>early, late, fastGap and compress\<close>

text \<open>The functions registered as \<open>early\<close> and \<open>late\<close> (with \<open>preserveSteps\<close>) and
  their methods \<^verbatim>\<open>pat._early(offset)\<close> and \<^verbatim>\<open>pat._late(offset)\<close>.\<close>

definition early_func :: "jsnum \<Rightarrow> ('v, 'c) pattern \<Rightarrow> ('v, 'c) pattern" where
  "early_func offset pat =
     (let off = Fraction offset
      in withHapTime (\<lambda>t. t - off) (withQueryTime (\<lambda>t. t + off) pat))"

definition u_early :: "jsnum \<Rightarrow> ('v, 'c) pattern \<Rightarrow> ('v, 'c) pattern" where
  "u_early offset pat = underscore True (early_func offset pat) pat"

definition late_func :: "jsnum \<Rightarrow> ('v, 'c) pattern \<Rightarrow> ('v, 'c) pattern" where
  "late_func offset pat = (let off = Fraction offset in u_early (Frac (0 - off)) pat)"

definition u_late :: "jsnum \<Rightarrow> ('v, 'c) pattern \<Rightarrow> ('v, 'c) pattern" where
  "u_late offset pat = underscore True (late_func offset pat) pat"

definition withQuerySpanMaybe ::
  "(timespan \<Rightarrow> timespan option) \<Rightarrow> ('v, 'c) pattern \<Rightarrow> ('v, 'c) pattern" where
  "withQuerySpanMaybe func pat =
     Pattern (\<lambda>st. case func (span st) of
                      None \<Rightarrow> Inr []
                    | Some sp \<Rightarrow> query pat (State sp (controls st)))
             None"

text \<open>\<open>withHap\<close> for a function that may throw.\<close>

definition withHapE :: "('v hap \<Rightarrow> error + 'w hap) \<Rightarrow> ('v, 'c) pattern \<Rightarrow> ('w, 'c) pattern" where
  "withHapE func p = Pattern (\<lambda>st. bindE (query p st) (mapE func)) (steps p)"

text \<open>The two inner functions of \<open>fastGap\<close>: \<open>qf\<close> on the query span and \<open>ef\<close> on
  every event; \<open>ef\<close> divides by the factor.\<close>

definition fastGap_qf :: "rat \<Rightarrow> timespan \<Rightarrow> timespan option" where
  "fastGap_qf factor sp =
     (let cycle = sam (tbegin sp);
          bpos = min ((tbegin sp - cycle) * factor) 1;
          epos = min ((tend sp - cycle) * factor) 1
      in if bpos \<ge> 1 then None else Some (TimeSpan (cycle + bpos) (cycle + epos)))"

definition fastGap_ef :: "rat \<Rightarrow> 'v hap \<Rightarrow> error + 'v hap" where
  "fastGap_ef factor hap =
     (let pbegin = tbegin (part hap);
          pend = tend (part hap);
          cycle = sam pbegin
      in bindE (fdiv (pbegin - cycle) factor) (\<lambda>bq.
         bindE (fdiv (pend - cycle) factor) (\<lambda>eq0.
           let beginPos = min bq 1;
               endPos = min eq0 1;
               newPart = TimeSpan (cycle + beginPos) (cycle + endPos)
           in bindE (case whole hap of
                       None \<Rightarrow> Inr None
                     | Some w \<Rightarrow>
                         bindE (fdiv (pbegin - tbegin w) factor) (\<lambda>db.
                         bindE (fdiv (tend w - pend) factor) (\<lambda>de.
                           Inr (Some (TimeSpan (tbegin newPart - db) (tend newPart + de))))))
                (\<lambda>newWhole. Inr (Hap newWhole newPart (hvalue hap) (hcontext hap))))))"

definition fastGap_func :: "jsnum \<Rightarrow> ('v, 'c) pattern \<Rightarrow> ('v, 'c) pattern" where
  "fastGap_func factor pat =
     splitQueries (withHapE (fastGap_ef (Fraction factor))
                     (withQuerySpanMaybe (fastGap_qf (Fraction factor)) pat))"

definition u_fastGap :: "jsnum \<Rightarrow> ('v, 'c) pattern \<Rightarrow> ('v, 'c) pattern" where
  "u_fastGap factor pat = underscore False (fastGap_func factor pat) pat"

text \<open>The function registered as \<open>compress\<close> and the method
  \<^verbatim>\<open>pat.compress(b, e)\<close> for plain arguments. Building the pattern throws when
  \<open>1 / (e - b)\<close> does.\<close>

definition compress_func :: "jsnum \<Rightarrow> jsnum \<Rightarrow> ('v, 'c) pattern \<Rightarrow> error + ('v, 'c) pattern" where
  "compress_func b0 e0 pat =
     (let b = Fraction b0; e = Fraction e0
      in if b > e \<or> b > 1 \<or> e > 1 \<or> b < 0 \<or> e < 0 then Inr silence
         else bindE (fdiv 1 (e - b)) (\<lambda>k. Inr (u_late (Frac b) (u_fastGap (Frac k) pat))))"

definition compress :: "jsnum \<Rightarrow> jsnum \<Rightarrow> ('v, 'c) pattern \<Rightarrow> error + ('v, 'c) pattern" where
  "compress b e pat = bindE (compress_func b e pat) (\<lambda>result. Inr (pfunc False result pat))"

definition u_compress :: "jsnum \<Rightarrow> jsnum \<Rightarrow> ('v, 'c) pattern \<Rightarrow> error + ('v, 'c) pattern" where
  "u_compress b e pat = bindE (compress_func b e pat) (\<lambda>result. Inr (underscore False result pat))"

subsection \<open>Concatenation\<close>

text \<open>
  \<open>stack\<close>, \<open>slowcat\<close> and \<open>fastcat\<close> on arguments that are patterns already (the
  source first reifies plain values and turns nested arrays into sequences).

  Modelled from the spec: \<^verbatim>\<open>_mod\<close> of util.mjs, which is not among the sources, is
  the modulo that is never negative ("cycle \<open>k\<close> plays pattern \<open>k mod n\<close>"); for no
  patterns at all it indexes nothing.
\<close>

definition stack :: "bool \<Rightarrow> ('v, 'c) pattern list \<Rightarrow> ('v, 'c) pattern" where
  "stack cs pats =
     Pattern (\<lambda>st. flatMapE (\<lambda>pat. query pat st) pats)
             (if cs then lcm_steps (map steps pats) else None)"

definition mod_index :: "rat \<Rightarrow> nat \<Rightarrow> nat option" where
  "mod_index c n = (if n = 0 then None else Some (nat (\<lfloor>c\<rfloor> mod int n)))"

definition slowcat_query :: "('v, 'c) pattern list \<Rightarrow> 'c state \<Rightarrow> error + 'v hap list" where
  "slowcat_query pats st =
     (let sp = span st in
      case mod_index (sam (tbegin sp)) (length pats) of
        None \<Rightarrow> Inr []
      | Some pat_n \<Rightarrow>
          if pat_n < length pats then
            bindE (fdiv (tbegin sp) (of_nat (length pats))) (\<lambda>d.
              let offset = of_int \<lfloor>tbegin sp\<rfloor> - of_int \<lfloor>d\<rfloor>
              in query (withHapTime (\<lambda>t. t + offset) (pats ! pat_n))
                       (setSpan (withTime (\<lambda>t. t - offset) sp) st))
          else Inr [])"

definition slowcat :: "bool \<Rightarrow> ('v, 'c) pattern list \<Rightarrow> ('v, 'c) pattern" where
  "slowcat cs pats =
     (case pats of
        [pat] \<Rightarrow> pat
      | _ \<Rightarrow> setSteps (if cs then lcm_steps (map steps pats) else None)
               (splitQueries (Pattern (slowcat_query pats) None)))"

text \<open>In \<open>fastcat\<close> the source's last \<^verbatim>\<open>if\<close>, for a single argument, assigns
  \<^verbatim>\<open>_steps\<close> on the argument array and leaves the result as it is.\<close>

definition fastcat :: "bool \<Rightarrow> ('v, 'c) pattern list \<Rightarrow> ('v, 'c) pattern" where
  "fastcat cs pats =
     (let result = slowcat cs pats
      in if length pats > 1
         then setSteps (Some (of_nat (length pats))) (u_fast (Num (of_nat (length pats))) result)
         else result)"

subsection \<open>Stepwise functions\<close>

text \<open>
  Modelled from the spec: \<^verbatim>\<open>TimeSpan.withCycle\<close> of timespan.mjs, which is not among
  the sources, applies a function to both ends of a span, taken relative to the cycle
  in which the span begins (\<open>zoom\<close> plays the slice \<open>[b, e]\<close> of each cycle over the
  full cycle).
\<close>

definition withCycle :: "(rat \<Rightarrow> rat) \<Rightarrow> timespan \<Rightarrow> timespan" where
  "withCycle func_time ts =
     (let s = sam (tbegin ts)
      in TimeSpan (s + func_time (tbegin ts - s)) (s + func_time (tend ts - s)))"

text \<open>The function registered as \<open>zoom\<close> and the method \<^verbatim>\<open>pat.zoom(s, e)\<close> for
  plain arguments. The division by \<open>d = e - s\<close> is behind the guard \<open>s \<ge> e\<close>.\<close>

definition zoom_func :: "bool \<Rightarrow> jsnum \<Rightarrow> jsnum \<Rightarrow> ('v, 'c) pattern \<Rightarrow> ('v, 'c) pattern" where
  "zoom_func cs s0 e0 pat =
     (let e = Fraction e0; s = Fraction s0
      in if s \<ge> e then nothing
         else let d = e - s;
                  stps = (if cs then map_option (\<lambda>x. x * d) (steps pat) else None)
              in setSteps stps
                   (splitQueries
                      (withHapSpan (withCycle (\<lambda>t. (t - s) / d))
                         (withQuerySpan (withCycle (\<lambda>t. t * d + s)) pat))))"

definition zoom :: "bool \<Rightarrow> jsnum \<Rightarrow> jsnum \<Rightarrow> ('v, 'c) pattern \<Rightarrow> ('v, 'c) pattern" where
  "zoom cs s e pat = pfunc False (zoom_func cs s e pat) pat"

text \<open>The function registered as \<open>pace\<close> and the method \<^verbatim>\<open>pat.pace(targetSteps)\<close>;
  the division is behind the guard on zero steps.\<close>

definition pace_func :: "jsnum \<Rightarrow> ('v, 'c) pattern \<Rightarrow> ('v, 'c) pattern" where
  "pace_func targetSteps pat =
     (case steps pat of
        None \<Rightarrow> pat
      | Some s \<Rightarrow>
          if s = 0 then nothing
          else setSteps (Some (Fraction targetSteps))
                 (u_fast (Frac (Fraction targetSteps / s)) pat))"

definition pace :: "jsnum \<Rightarrow> ('v, 'c) pattern \<Rightarrow> ('v, 'c) pattern" where
  "pace targetSteps pat = pfunc False (pace_func targetSteps pat) pat"

text \<open>The functions registered as \<open>take\<close> and \<open>drop\<close>, and their methods for a plain
  argument (\<open>take_p\<close>, \<open>drop_p\<close>). In \<open>take\<close> the division by the steps is behind the
  guard \<open>steps \<le> 0\<close>.\<close>

definition take_func :: "bool \<Rightarrow> jsnum \<Rightarrow> ('v, 'c) pattern \<Rightarrow> ('v, 'c) pattern" where
  "take_func cs i0 pat =
     (case steps pat of
        None \<Rightarrow> nothing
      | Some s \<Rightarrow>
          if s \<le> 0 then nothing
          else let i = Fraction i0 in
            if i = 0 then nothing
            else let flip = (i < 0);
                     i' = (if flip then \<bar>i\<bar> else i);
                     frac = i' / s
                 in if frac \<le> 0 then nothing
                    else if frac \<ge> 1 then pat
                    else if flip then zoom cs (Frac (1 - frac)) (Num 1) pat
                    else zoom cs (Num 0) (Frac frac) pat)"

definition take_p :: "bool \<Rightarrow> jsnum \<Rightarrow> ('v, 'c) pattern \<Rightarrow> ('v, 'c) pattern" where
  "take_p cs i pat = pfunc False (take_func cs i pat) pat"

definition drop_func :: "bool \<Rightarrow> jsnum \<Rightarrow> ('v, 'c) pattern \<Rightarrow> ('v, 'c) pattern" where
  "drop_func cs i0 pat =
     (case steps pat of
        None \<Rightarrow> nothing
      | Some s \<Rightarrow>
          let i = Fraction i0
          in if i < 0 then take_p cs (Frac (s + i)) pat
             else take_p cs (Frac (0 - (s - i))) pat)"

definition drop_p :: "bool \<Rightarrow> jsnum \<Rightarrow> ('v, 'c) pattern \<Rightarrow> ('v, 'c) pattern" where
  "drop_p cs i pat = pfunc False (drop_func cs i pat) pat"

text \<open>
  \<open>stepcat\<close> on pairs of a time and a pattern, and on patterns, each with its steps
  (or \<open>1\<close>) as time. The source's branch for an undefined time is for pairs given
  without one, which the type of the pairs excludes here. The loop places each pattern
  with a non-zero time by \<^verbatim>\<open>_compress\<close>.
\<close>

fun stepcat_loop ::
  "rat \<Rightarrow> rat \<Rightarrow> (rat \<times> ('v, 'c) pattern) list \<Rightarrow> error + ('v, 'c) pattern list" where
  "stepcat_loop tot pbegin [] = Inr []"
| "stepcat_loop tot pbegin ((time, pat) # rest) =
     (if time = 0 then stepcat_loop tot pbegin rest
      else let pend = pbegin + time
           in bindE (fdiv pbegin tot) (\<lambda>b.
              bindE (fdiv pend tot) (\<lambda>e.
              bindE (u_compress (Frac b) (Frac e) pat) (\<lambda>c.
              bindE (stepcat_loop tot pend rest) (\<lambda>cs. Inr (c # cs))))))"

definition stepcat_timed ::
  "bool \<Rightarrow> (rat \<times> ('v, 'c) pattern) list \<Rightarrow> error + ('v, 'c) pattern" where
  "stepcat_timed cs timepats =
     (case timepats of
        [] \<Rightarrow> Inr nothing
      | [(time, pat)] \<Rightarrow> Inr (withSteps cs (\<lambda>_. time) pat)
      | _ \<Rightarrow>
          let tot = foldl (\<lambda>a b. a + b) 0 (map fst timepats)
          in bindE (stepcat_loop tot 0 timepats)
               (\<lambda>pats. Inr (setSteps (Some tot) (stack cs pats))))"

definition findsteps :: "('v, 'c) pattern \<Rightarrow> rat \<times> ('v, 'c) pattern" where
  "findsteps x = (case steps x of None \<Rightarrow> 1 | Some s \<Rightarrow> s, x)"

definition stepcat :: "bool \<Rightarrow> ('v, 'c) pattern list \<Rightarrow> error + ('v, 'c) pattern" where
  "stepcat cs pats = stepcat_timed cs (map findsteps pats)"

text \<open>
  \<open>shrinklist\<close> for a plain amount (not the list form \<open>amount:times\<close>), so that
  \<open>times\<close> is the steps of the pattern; both are fractions then, and the source's
  test \<^verbatim>\<open>times === 0 || amountv === 0\<close> is false. The two loops run \<open>i\<close> from \<open>0\<close>
  while \<open>i < times\<close> and stop early at the \<^verbatim>\<open>break\<close>.
\<close>

function ranges_fromstart :: "rat \<Rightarrow> rat \<Rightarrow> nat \<Rightarrow> (rat \<times> jsnum) list" where
  "ranges_fromstart seg ntimes i =
     (if of_nat i < ntimes then
        (let s = seg * of_nat i
         in if s > 1 then [] else (s, Num 1) # ranges_fromstart seg ntimes (Suc i))
      else [])"
  by pat_completeness auto
termination
proof (relation "measure (\<lambda>(seg, ntimes, i). nat \<lceil>ntimes\<rceil> - i)")
  show "wf (measure (\<lambda>(seg, ntimes, i). nat \<lceil>ntimes\<rceil> - i))" by simp
next
  fix seg ntimes :: rat and i :: nat and s :: rat
  assume "of_nat i < ntimes"
  then have "int i < \<lceil>ntimes\<rceil>" by (simp add: less_ceiling_iff)
  then show "((seg, ntimes, Suc i), (seg, ntimes, i)) \<in> measure (\<lambda>(seg, ntimes, i). nat \<lceil>ntimes\<rceil> - i)"
    by simp
qed

function ranges_fromend :: "rat \<Rightarrow> rat \<Rightarrow> nat \<Rightarrow> (rat \<times> rat) list" where
  "ranges_fromend seg ntimes i =
     (if of_nat i < ntimes then
        (let e = 1 - seg * of_nat i
         in if e < 0 then [] else (0, e) # ranges_fromend seg ntimes (Suc i))
      else [])"
  by pat_completeness auto
termination
proof (relation "measure (\<lambda>(seg, ntimes, i). nat \<lceil>ntimes\<rceil> - i)")
  show "wf (measure (\<lambda>(seg, ntimes, i). nat \<lceil>ntimes\<rceil> - i))" by simp
next
  fix seg ntimes :: rat and i :: nat and e :: rat
  assume "of_nat i < ntimes"
  then have "int i < \<lceil>ntimes\<rceil>" by (simp add: less_ceiling_iff)
  then show "((seg, ntimes, Suc i), (seg, ntimes, i)) \<in> measure (\<lambda>(seg, ntimes, i). nat \<lceil>ntimes\<rceil> - i)"
    by simp
qed

declare ranges_fromstart.simps [simp del] ranges_fromend.simps [simp del]

definition shrinklist :: "bool \<Rightarrow> jsnum \<Rightarrow> ('v, 'c) pattern \<Rightarrow> error + ('v, 'c) pattern list" where
  "shrinklist cs amount pat =
     (case steps pat of
        None \<Rightarrow> Inr [pat]
      | Some ntimes \<Rightarrow>
          let amountv = Fraction amount
          in if amountv > 0 then
               bindE (fdiv 1 ntimes) (\<lambda>r.
                 let seg = r * amountv
                 in Inr (map (\<lambda>(s, e). zoom cs (Frac s) e pat) (ranges_fromstart seg ntimes 0)))
             else
               let amountv' = 0 - amountv
               in bindE (fdiv 1 ntimes) (\<lambda>r.
                    let seg = r * amountv'
                    in Inr (map (\<lambda>(s, e). zoom cs (Frac s) (Frac e) pat)
                              (ranges_fromend seg ntimes 0))))"

text \<open>The functions registered as \<open>shrink\<close> and \<open>grow\<close>, and their methods for a plain
  amount. The sum of the steps of the list takes an absent \<^verbatim>\<open>_steps\<close> as zero.\<close>

definition sum_steps :: "('v, 'c) pattern list \<Rightarrow> rat" where
  "sum_steps list = foldl (\<lambda>a b. a + Fraction (jsnum_of_steps (steps b))) 0 list"

definition shrink_func :: "bool \<Rightarrow> jsnum \<Rightarrow> ('v, 'c) pattern \<Rightarrow> error + ('v, 'c) pattern" where
  "shrink_func cs amount pat =
     (if \<not> hasSteps pat then Inr nothing
      else bindE (shrinklist cs amount pat) (\<lambda>list.
           bindE (stepcat cs list) (\<lambda>result.
             Inr (setSteps (Some (sum_steps list)) result))))"

definition shrink :: "bool \<Rightarrow> jsnum \<Rightarrow> ('v, 'c) pattern \<Rightarrow> error + ('v, 'c) pattern" where
  "shrink cs amount pat =
     bindE (shrink_func cs amount pat) (\<lambda>result. Inr (pfunc False result pat))"

definition grow_func :: "bool \<Rightarrow> jsnum \<Rightarrow> ('v, 'c) pattern \<Rightarrow> error + ('v, 'c) pattern" where
  "grow_func cs amount pat =
     (if \<not> hasSteps pat then Inr nothing
      else bindE (shrinklist cs (Frac (0 - Fraction amount)) pat) (\<lambda>list0.
           let list = rev list0
           in bindE (stepcat cs list) (\<lambda>result.
                Inr (setSteps (Some (sum_steps list)) result))))"

definition grow :: "bool \<Rightarrow> jsnum \<Rightarrow> ('v, 'c) pattern \<Rightarrow> error + ('v, 'c) pattern" where
  "grow cs amount pat =
     bindE (grow_func cs amount pat) (\<lambda>result. Inr (pfunc False result pat))"

text \<open>\<open>polymeter\<close> and \<open>zip\<close> on arguments that are patterns (the "old behaviour" of
  \<open>polymeter\<close> is for a first argument that is an array). After the filter every
  argument has steps; \<^verbatim>\<open>steps.eq\<close> on an undefined lcm would be a type error.\<close>

definition polymeter :: "bool \<Rightarrow> ('v, 'c) pattern list \<Rightarrow> error + ('v, 'c) pattern" where
  "polymeter cs args0 =
     (let args = filter hasSteps args0
      in if length args = 0 then Inr silence
         else case lcm_steps (map steps args) of
                None \<Rightarrow> Inl TypeError
              | Some stps \<Rightarrow>
                  if stps = 0 then Inr nothing
                  else Inr (setSteps (Some stps)
                              (stack cs (map (\<lambda>x. pace (Frac stps) x) args))))"

definition zip_p :: "bool \<Rightarrow> ('v, 'c) pattern list \<Rightarrow> error + ('v, 'c) pattern" where
  "zip_p cs pats0 =
     (let pats = filter hasSteps pats0
      in bindE (mapE (\<lambda>pat. u_slow (jsnum_of_steps (steps pat)) pat) pats) (\<lambda>slowed.
           let zipped = slowcat cs slowed;
               stps = lcm_steps (map steps pats)
           in Inr (setSteps stps (u_fast (jsnum_of_steps stps) zipped))))"

text \<open>Two patterns are equivalent when every query gives the same events, in the
  same order, with the same wholes, parts and values, or fails with the same
  exception.\<close>

definition hap_core :: "'v hap \<Rightarrow> timespan option \<times> timespan \<times> 'v" where
  "hap_core h = (whole h, part h, hvalue h)"

definition same_events :: "('v, 'c) pattern \<Rightarrow> ('v, 'c) pattern \<Rightarrow> bool" where
  "same_events p q =
     (\<forall>st. map_sum id (map hap_core) (query p st) = map_sum id (map hap_core) (query q st))"

subsection \<open>Signals and randomness\<close>

text \<open>
  signal.mjs. The arithmetic of the random source is JavaScript's: doubles, and 32-bit
  integers under the bit operators. Numbers are taken at the rational they denote
  and the integer operands of \<^verbatim>\<open><<\<close>, \<^verbatim>\<open>>>\<close> and \<^verbatim>\<open>^\<close> as 32-bit words (\<^verbatim>\<open>>>\<close>
  is the signed shift); the rounding of doubles is not modelled, so \<open>timeToRand\<close> is
  the source's function wherever that arithmetic is exact, as it is at time \<open>0\<close>.
\<close>

definition steady :: "'v \<Rightarrow> ('v, 'c) pattern" where
  "steady v = Pattern (\<lambda>st. Inr [Hap None (span st) v empty_context]) None"

definition signal :: "(rat \<Rightarrow> 'v) \<Rightarrow> ('v, 'c) pattern" where
  "signal func = Pattern (\<lambda>st. Inr [Hap None (span st) (func (tbegin (span st))) empty_context]) None"

definition xorwise :: "32 word \<Rightarrow> 32 word" where
  "xorwise x =
     (let a = (push_bit 13 x) XOR x;
          b = (signed_drop_bit 17 a) XOR a
      in (push_bit 5 b) XOR b)"

text \<open>\<^verbatim>\<open>Math.trunc\<close>, and \<^verbatim>\<open>%\<close>, whose result has the sign of the dividend.\<close>

definition trunc :: "rat \<Rightarrow> int" where
  "trunc x = (if 0 \<le> x then \<lfloor>x\<rfloor> else \<lceil>x\<rceil>)"

definition js_rem :: "int \<Rightarrow> int \<Rightarrow> int" where
  "js_rem x m = (if 0 \<le> x then x mod m else - ((- x) mod m))"

definition frac_part :: "rat \<Rightarrow> rat" where
  "frac_part x = x - of_int (trunc x)"

definition timeToIntSeed :: "rat \<Rightarrow> 32 word" where
  "timeToIntSeed x = xorwise (word_of_int (trunc (frac_part (x / 300) * 536870912)))"

definition intSeedToRand :: "32 word \<Rightarrow> rat" where
  "intSeedToRand x = of_int (js_rem (sint x) 536870912) / 536870912"

definition timeToRand :: "rat \<Rightarrow> rat" where
  "timeToRand x = \<bar>intSeedToRand (timeToIntSeed x)\<bar>"

definition rand :: "(rat, 'c) pattern" where
  "rand = signal timeToRand"

text \<open>The functions registered as \<open>degradeByWith\<close> and \<open>degradeBy\<close> (both with
  \<open>preserveSteps\<close>), with the methods \<^verbatim>\<open>pat._degradeByWith(withPat, x)\<close> and
  \<^verbatim>\<open>pat.degradeBy(x)\<close> for a number \<open>x\<close>.\<close>

definition degradeByWith_func ::
  "(rat, 'c) pattern \<Rightarrow> rat \<Rightarrow> ('v, 'c) pattern \<Rightarrow> ('v, 'c) pattern" where
  "degradeByWith_func withPat x pat =
     appLeft (fmap (\<lambda>a. \<lambda>_. a) pat) (filterValues (\<lambda>v. v > x) withPat)"

definition u_degradeByWith ::
  "(rat, 'c) pattern \<Rightarrow> rat \<Rightarrow> ('v, 'c) pattern \<Rightarrow> ('v, 'c) pattern" where
  "u_degradeByWith withPat x pat = underscore True (degradeByWith_func withPat x pat) pat"

definition degradeBy_func :: "rat \<Rightarrow> ('v, 'c) pattern \<Rightarrow> ('v, 'c) pattern" where
  "degradeBy_func x pat = u_degradeByWith rand x pat"

definition degradeBy :: "rat \<Rightarrow> ('v, 'c) pattern \<Rightarrow> ('v, 'c) pattern" where
  "degradeBy x pat = pfunc True (degradeBy_func x pat) pat"

text \<open>\<open>inside a b\<close>: the span \<open>b\<close> lies within \<open>a\<close> and their intersection is \<open>b\<close>
  itself; a point at the end of an \<open>a\<close> of non-zero width is not inside \<open>a\<close>.\<close>

definition inside :: "timespan \<Rightarrow> timespan \<Rightarrow> bool" where
  "inside a b =
     (tbegin a \<le> tbegin b \<and> tbegin b \<le> tend b \<and> tend b \<le> tend a
      \<and> \<not> (tbegin b = tend b \<and> tend b = tend a \<and> tbegin a < tend a))"

subsection \<open>Event containment\<close>

text \<open>
  The two properties of an event that the spec demands of every query: its part
  intersects the query span, and its part lies within its whole when it has one.
  \<open>contained\<close> is the invariant under which they are proved: for every query span with
  \<open>begin \<le> end\<close>, every returned event has its part within the span (of non-zero
  width when the span has one) and within its whole. \<open>contained_cycle\<close> asks this
  only of the spans that lie within one cycle.
\<close>

definition intersects_span :: "timespan \<Rightarrow> 'v hap \<Rightarrow> bool" where
  "intersects_span sp h = (intersection sp (part h) \<noteq> None)"

definition part_in_whole :: "'v hap \<Rightarrow> bool" where
  "part_in_whole h =
     (case whole h of
        None \<Rightarrow> True
      | Some w \<Rightarrow>
          tbegin w \<le> tbegin (part h) \<and> tbegin (part h) \<le> tend (part h) \<and> tend (part h) \<le> tend w)"

definition span_within :: "timespan \<Rightarrow> timespan \<Rightarrow> bool" where
  "span_within sp p =
     (tbegin sp \<le> tbegin p \<and> tbegin p \<le> tend p \<and> tend p \<le> tend sp
      \<and> (tbegin sp < tend sp \<longrightarrow> tbegin p < tend p))"

definition hap_ok :: "timespan \<Rightarrow> 'v hap \<Rightarrow> bool" where
  "hap_ok sp h = (span_within sp (part h) \<and> part_in_whole h)"

definition contained :: "('v, 'c) pattern \<Rightarrow> bool" where
  "contained p =
     (\<forall>st haps. tbegin (span st) \<le> tend (span st) \<longrightarrow> query p st = Inr haps
        \<longrightarrow> (\<forall>h\<in>set haps. hap_ok (span st) h))"

definition contained_cycle :: "('v, 'c) pattern \<Rightarrow> bool" where
  "contained_cycle p =
     (\<forall>st haps. tbegin (span st) \<le> tend (span st) \<longrightarrow> tend (span st) \<le> nextSam (tbegin (span st))
        \<longrightarrow> query p st = Inr haps \<longrightarrow> (\<forall>h\<in>set haps. hap_ok (span st) h))"

subsection \<open>Querying\<close>

text \<open>
  Modelled from the spec: the \<^verbatim>\<open>logger\<close> of logger.mjs, which is not among the
  sources, is a sink called as \<open>logger(msg, level)\<close>; the log is the list of the calls
  made so far.
\<close>

type_synonym log = "(string \<times> string) list"

definition logger :: "string \<Rightarrow> string \<Rightarrow> log \<Rightarrow> log" where
  "logger msg level l = l @ [(msg, level)]"

text \<open>\<^verbatim>\<open>queryArc(begin, end, controls)\<close>: the events and the log afterwards.\<close>

definition queryArc ::
  "('v, 'c) pattern \<Rightarrow> rat \<Rightarrow> rat \<Rightarrow> 'c \<Rightarrow> log \<Rightarrow> 'v hap list \<times> log" where
  "queryArc p b e ctrl l =
     (case query p (State (TimeSpan b e) ctrl) of
        Inr haps \<Rightarrow> (haps, l)
      | Inl err \<Rightarrow> ([], logger (''[query]: '' @ message err) ''error'' l))"

section \<open>Properties\<close>

subsection \<open>Basic facts\<close>

lemma part_in_whole_iff:
  "part_in_whole h =
     (\<forall>w. whole h = Some w \<longrightarrow>
        tbegin w \<le> tbegin (part h) \<and> tbegin (part h) \<le> tend (part h) \<and> tend (part h) \<le> tend w)"
  by (simp add: part_in_whole_def split: option.split)

lemma bindE_Inr [simp]: "bindE (Inr x) f = f x"
  by (simp add: bindE_def)

lemma bindE_Inl [simp]: "bindE (Inl e) f = Inl e"
  by (simp add: bindE_def)

lemma mapE_total [simp]: "mapE (\<lambda>x. Inr (f x)) xs = Inr (map f xs)"
  by (induction xs) auto

lemma mapE_total_fun: "mapE (\<lambda>x. Inr (f x)) = (\<lambda>xs. Inr (map f xs))"
  by (rule ext) simp

lemma withTimeE_total: "withTimeE (\<lambda>t. Inr (f t)) = (\<lambda>ts. Inr (withTime f ts))"
  by (rule ext) (simp add: withTimeE_def withTime_def)

lemma hap_withSpanE_total: "hap_withSpanE (\<lambda>ts. Inr (f ts)) = (\<lambda>h. Inr (hap_withSpan f h))"
  by (rule ext) (simp add: hap_withSpanE_def hap_withSpan_def split: option.splits)

lemma hap_withSpan_sel [simp]:
  "whole (hap_withSpan f h) = map_option f (whole h)"
  "part (hap_withSpan f h) = f (part h)"
  "hvalue (hap_withSpan f h) = hvalue h"
  "hcontext (hap_withSpan f h) = hcontext h"
  by (simp_all add: hap_withSpan_def Hap_def)

lemma hap_setContext_sel [simp]:
  "whole (hap_setContext c h) = whole h"
  "part (hap_setContext c h) = part h"
  "hvalue (hap_setContext c h) = hvalue h"
  "hcontext (hap_setContext c h) = c"
  by (simp_all add: hap_setContext_def Hap_def)

lemma hap_core_setContext [simp]: "hap_core (hap_setContext c h) = hap_core h"
  by (simp add: hap_core_def)

lemma query_fast_func:
  assumes "Fraction k \<noteq> 0"
  shows "query (fast_func k p) st =
     bindE (query p (state_withSpan (withTime (\<lambda>t. t * Fraction k)) st))
       (\<lambda>haps. Inr (map (hap_withSpan (withTime (\<lambda>t. t / Fraction k))) haps))"
proof -
  have nz: "k \<noteq> Num 0" using assms by auto
  have "(\<lambda>t. fdiv t (Fraction k)) = (\<lambda>t. Inr (t / Fraction k))"
    using assms by (simp add: fdiv_def)
  then show ?thesis using nz
    by (simp add: fast_func_def Let_def setSteps_def Pattern_def withHapTimeE_def
        withHapSpanE_def withQueryTime_def withTimeE_total hap_withSpanE_total mapE_total_fun)
qed

lemma query_pfunc:
  "query (pfunc ps r p) st =
     bindE (query r st)
       (\<lambda>haps. Inr (map (\<lambda>h. hap_setContext (add_locations [] (hcontext h)) h) haps))"
  by (simp add: pfunc_def Let_def withContext_def withHap_def withHaps_def Pattern_def setSteps_def)

lemma query_underscore: "query (underscore ps r p) st = query r st"
  by (simp add: underscore_def setSteps_def Pattern_def)

lemma same_events_pfunc: "same_events (pfunc ps r p) r"
  unfolding same_events_def
proof
  fix st
  show "map_sum id (map hap_core) (query (pfunc ps r p) st) = map_sum id (map hap_core) (query r st)"
    by (cases "query r st") (simp_all add: query_pfunc)
qed

lemma same_events_refl: "same_events p p"
  by (simp add: same_events_def)

lemma same_events_sym: "same_events p q \<Longrightarrow> same_events q p"
  by (simp add: same_events_def)

lemma same_events_trans: "same_events p q \<Longrightarrow> same_events q r \<Longrightarrow> same_events p r"
  by (simp add: same_events_def)

lemma floor_div_nat:
  fixes x :: rat
  assumes n: "0 < n"
  shows "\<lfloor>x / of_nat n\<rfloor> = \<lfloor>x\<rfloor> div int n"
proof (rule floor_unique)
  let ?q = "\<lfloor>x\<rfloor> div int n"
  let ?r = "\<lfloor>x\<rfloor> mod int n"
  have pos: "(0::rat) < of_nat n" using n by simp
  have eq: "\<lfloor>x\<rfloor> = ?q * int n + ?r" by simp
  have r: "0 \<le> ?r" "?r < int n" using n by simp_all
  have "?q * int n \<le> \<lfloor>x\<rfloor>" using eq r by linarith
  then have "(of_int (?q * int n) :: rat) \<le> of_int \<lfloor>x\<rfloor>" by (simp only: of_int_le_iff)
  also have "\<dots> \<le> x" by simp
  finally have "of_int ?q * of_nat n \<le> x" by simp
  then show "of_int ?q \<le> x / of_nat n" using pos by (simp add: pos_le_divide_eq)
  have "(?q + 1) * int n = ?q * int n + int n" by (simp add: algebra_simps)
  then have "\<lfloor>x\<rfloor> + 1 \<le> (?q + 1) * int n" using eq r by linarith
  then have "(of_int (\<lfloor>x\<rfloor> + 1) :: rat) \<le> of_int ((?q + 1) * int n)" by (simp only: of_int_le_iff)
  moreover have "x < of_int (\<lfloor>x\<rfloor> + 1)" by linarith
  ultimately have "x < of_int ((?q + 1) * int n)" by linarith
  then have "x < (of_int ?q + 1) * of_nat n" by simp
  then show "x / of_nat n < of_int ?q + 1" using pos by (simp add: pos_divide_less_eq)
qed

lemma cycles_from_same: "cycles_from e e = []"
  by (simp add: cycles_from.simps)

lemma spanCycles_single:
  assumes "tbegin ts \<le> tend ts" "tend ts \<le> nextSam (tbegin ts)"
  shows "spanCycles ts = [ts]"
proof (cases "tbegin ts = tend ts")
  case True
  then show ?thesis by (simp add: spanCycles_def TimeSpan_def)
next
  case False
  then have lt: "tbegin ts < tend ts" using assms by simp
  show ?thesis
  proof (cases "sam (tbegin ts) = sam (tend ts)")
    case True
    then show ?thesis using lt False
      by (simp add: spanCycles_def cycles_from.simps[of "tbegin ts"] TimeSpan_def)
  next
    case ne: False
    have "\<lfloor>tbegin ts\<rfloor> \<le> \<lfloor>tend ts\<rfloor>" using lt by (simp add: floor_mono)
    moreover have "\<lfloor>tbegin ts\<rfloor> \<noteq> \<lfloor>tend ts\<rfloor>" using ne by (auto simp: sam_def)
    ultimately have "\<lfloor>tbegin ts\<rfloor> + 1 \<le> \<lfloor>tend ts\<rfloor>" by simp
    then have "(of_int (\<lfloor>tbegin ts\<rfloor> + 1) :: rat) \<le> of_int \<lfloor>tend ts\<rfloor>" by (simp only: of_int_le_iff)
    also have "\<dots> \<le> tend ts" by simp
    finally have "nextSam (tbegin ts) \<le> tend ts" by (simp add: nextSam_def sam_def)
    then have "tend ts = nextSam (tbegin ts)" using assms by simp
    then show ?thesis using lt False ne
      by (simp add: spanCycles_def cycles_from.simps[of "tbegin ts"] cycles_from_same TimeSpan_def)
  qed
qed

lemma setSpan_same [simp]: "setSpan (span st) st = st"
  by (simp add: setSpan_def State_def)

lemma query_splitQueries_single:
  assumes "tbegin (span st) \<le> tend (span st)" "tend (span st) \<le> nextSam (tbegin (span st))"
  shows "query (splitQueries p) st = query p st"
  using spanCycles_single[OF assms]
  by (cases "query p st") (simp_all add: splitQueries_def Pattern_def flatMapE_def)

lemma query_withHapTime:
  "query (withHapTime f p) st = bindE (query p st) (\<lambda>haps. Inr (map (hap_withSpan (withTime f)) haps))"
  by (simp add: withHapTime_def withHapSpan_def Pattern_def)

lemma withTime_id [simp]: "withTime (\<lambda>t. t) ts = ts" "withTime (\<lambda>t. t * 1) ts = ts" "withTime (\<lambda>t. t / 1) ts = ts"
  by (simp_all add: withTime_def TimeSpan_def)

lemma state_withSpan_id [simp]: "state_withSpan (\<lambda>ts. ts) st = st"
  by (simp add: state_withSpan_def State_def)

lemma hap_withSpan_id [simp]: "hap_withSpan (\<lambda>ts. ts) h = h"
  by (simp add: hap_withSpan_def Hap_def option.map_ident)

lemma same_events_fast_one: "same_events (fast (Num 1) p) p"
  unfolding same_events_def
proof
  fix st
  have "withTime (\<lambda>t. t) = (\<lambda>ts. ts)" by (rule ext) simp
  then show "map_sum id (map hap_core) (query (fast (Num 1) p) st) = map_sum id (map hap_core) (query p st)"
    by (cases "query p st") (simp_all add: fast_def query_pfunc query_fast_func)
qed

lemma intersection_inside: "inside a b \<Longrightarrow> intersection a b = Some b"
  by (auto simp: inside_def intersection_def Let_def TimeSpan_def max_def min_def)

lemma query_pure_single:
  assumes "tbegin (span st) \<le> tend (span st)" "tend (span st) \<le> nextSam (tbegin (span st))"
  shows "query (pure v) st = Inr [Hap (Some (wholeCycle (tbegin (span st)))) (span st) v empty_context]"
  by (simp add: pure_def Pattern_def spanCycles_single[OF assms])

lemma appWhole_apply_inside:
  assumes "part hf = sp" "whole hf = Some cyc" "inside sp (part hv)"
    and "\<forall>w. whole hv = Some w \<longrightarrow> inside cyc w"
  shows "appWhole_apply whole_both hf hv
         = Inr (Some (Hap (whole hv) (part hv) ((hvalue hf) (hvalue hv)) (combineContext hv hf)))"
proof (cases "whole hv")
  case None
  then show ?thesis using assms
    by (simp add: appWhole_apply_def intersection_inside whole_both_def)
next
  case (Some w)
  then have "intersection cyc w = Some w" using assms(4) by (simp add: intersection_inside)
  then show ?thesis using assms Some
    by (simp add: appWhole_apply_def intersection_inside whole_both_def intersection_e_def)
qed

lemma mapE_apply_inside:
  assumes "part hf = sp" "whole hf = Some cyc" "hvalue hf = id"
    and "\<forall>h\<in>set haps. inside sp (part h) \<and> (\<forall>w. whole h = Some w \<longrightarrow> inside cyc w)"
  shows "\<exists>ys. mapE (appWhole_apply whole_both hf) haps = Inr (map Some ys)
              \<and> map hap_core ys = map hap_core haps"
  using assms(4)
proof (induction haps)
  case Nil
  then show ?case by simp
next
  case (Cons h haps)
  then obtain ys where ys: "mapE (appWhole_apply whole_both hf) haps = Inr (map Some ys)"
      "map hap_core ys = map hap_core haps" by auto
  define c where "c = combineContext h hf"
  have c: "appWhole_apply whole_both hf h = Inr (Some (Hap (whole h) (part h) ((hvalue hf) (hvalue h)) c))"
    unfolding c_def using appWhole_apply_inside[OF assms(1,2), of h] Cons.prems by auto
  have "mapE (appWhole_apply whole_both hf) (h # haps)
        = Inr (map Some (Hap (whole h) (part h) (hvalue h) c # ys))"
    using ys c assms(3) by simp
  moreover have "map hap_core (Hap (whole h) (part h) (hvalue h) c # ys) = map hap_core (h # haps)"
    using ys by (simp add: hap_core_def Hap_def)
  ultimately show ?case by blast
qed

lemma removeUndefineds_Some [simp]: "removeUndefineds (map Some ys) = ys"
  by (induction ys) (simp_all add: removeUndefineds_def)

lemma query_appBoth: "query (appBoth cs pf pv) st = query (appWhole whole_both pf pv) st"
  by (simp add: appBoth_def Let_def setSteps_def Pattern_def)

lemma timeToRand_zero: "timeToRand 0 = 0"
  by (simp add: timeToRand_def intSeedToRand_def timeToIntSeed_def xorwise_def frac_part_def
      trunc_def js_rem_def)

lemma sam_bounds: "sam t \<le> t" "t < nextSam t"
  by (simp_all add: sam_def nextSam_def) linarith

lemma intersection_span_cycle:
  assumes "tbegin sp \<le> tend sp" "tend sp \<le> nextSam (tbegin sp)"
  shows "intersection sp (wholeCycle (tbegin sp)) = Some sp"
proof -
  have "sam (tbegin sp) \<le> tbegin sp" "tbegin sp < nextSam (tbegin sp)" by (rule sam_bounds)+
  then show ?thesis using assms
    by (auto simp: intersection_def Let_def wholeCycle_def TimeSpan_def max_def min_def)
qed

lemma degradeByWith_signal_pure:
  assumes "tbegin (span st) \<le> tend (span st)" "tend (span st) \<le> nextSam (tbegin (span st))"
  shows "map_sum id (map hap_core) (query (degradeByWith_func (signal draw) x (pure v)) st)
       = Inr (if draw (sam (tbegin (span st))) > x
              then [(Some (wholeCycle (tbegin (span st))), span st, v)] else [])"
  using intersection_span_cycle[OF assms]
  by (simp add: degradeByWith_func_def appLeft_def setSteps_def Pattern_def fmap_def withValue_def
      query_pure_single[OF assms] flatMapE_def hap_withValue_def Hap_def wholeOrPart_def
      filterValues_def signal_def setSpan_def State_def wholeCycle_def TimeSpan_def hap_core_def)

lemma compress_out_of_range:
  assumes "Fraction b > Fraction e \<or> Fraction b > 1 \<or> Fraction e > 1 \<or> Fraction b < 0 \<or> Fraction e < 0"
  shows "\<exists>q. compress b e p = Inr q \<and> steps q = Some 1 \<and> (\<forall>st. query q st = Inr [])"
  using assms
  by (auto simp: compress_def compress_func_def Let_def pfunc_def withContext_def withHap_def
      withHaps_def Pattern_def silence_def gap_def)

lemma compress_equal:
  assumes "0 \<le> Fraction b" "Fraction b \<le> 1" "Fraction e = Fraction b"
  shows "compress b e p = Inl DivisionByZero"
  using assms by (simp add: compress_def compress_func_def Let_def fdiv_def)

lemma pfunc_nothing: "pfunc False nothing pat = nothing"
  by (simp add: pfunc_def Let_def withContext_def withHap_def withHaps_def Pattern_def nothing_def gap_def)

lemma queryArc_nothing: "queryArc nothing b e ctrl l = ([], l)"
  by (simp add: queryArc_def nothing_def gap_def Pattern_def)

subsection \<open>Containment is kept by the combinators\<close>

lemma containedI:
  assumes "\<And>st haps h. tbegin (span st) \<le> tend (span st) \<Longrightarrow> query p st = Inr haps
             \<Longrightarrow> h \<in> set haps \<Longrightarrow> hap_ok (span st) h"
  shows "contained p"
  using assms by (auto simp: contained_def)

lemma containedD:
  assumes "contained p" "tbegin (span st) \<le> tend (span st)" "query p st = Inr haps" "h \<in> set haps"
  shows "hap_ok (span st) h"
  using assms by (auto simp: contained_def)

lemma span_within_intersects: "span_within sp p \<Longrightarrow> intersection sp p \<noteq> None"
  by (auto simp: span_within_def intersection_def Let_def max_def min_def)

lemma contained_gap: "contained (gap n)"
  by (rule containedI) (simp add: gap_def Pattern_def)

lemma contained_steady: "contained (steady v)"
  by (rule containedI)
     (auto simp: steady_def Pattern_def hap_ok_def span_within_def part_in_whole_iff Hap_def)

lemma contained_signal: "contained (signal f)"
  by (rule containedI)
     (auto simp: signal_def Pattern_def hap_ok_def span_within_def part_in_whole_iff Hap_def)

lemma cycles_from_pieces:
  "s \<in> set (cycles_from b e) \<Longrightarrow>
     b \<le> tbegin s \<and> tbegin s < tend s \<and> tend s \<le> e \<and> tend s \<le> nextSam (tbegin s)"
proof (induction b e rule: cycles_from.induct)
  case (1 b e)
  show ?case
  proof (cases "e > b")
    case False
    with 1 show ?thesis by (simp add: cycles_from.simps[of b e])
  next
    case lt: True
    show ?thesis
    proof (cases "sam b = sam e")
      case True
      then have "s = TimeSpan b e" using 1(2) lt by (simp add: cycles_from.simps[of b e])
      moreover have "e < nextSam e" by (rule sam_bounds)
      ultimately show ?thesis using lt True by (simp add: TimeSpan_def nextSam_def)
    next
      case False
      have nb: "b < nextSam b" by (rule sam_bounds)
      have "\<lfloor>b\<rfloor> \<le> \<lfloor>e\<rfloor>" using lt by (simp add: floor_mono)
      moreover have "\<lfloor>b\<rfloor> \<noteq> \<lfloor>e\<rfloor>" using False by (auto simp: sam_def)
      ultimately have "\<lfloor>b\<rfloor> + 1 \<le> \<lfloor>e\<rfloor>" by simp
      then have "(of_int (\<lfloor>b\<rfloor> + 1) :: rat) \<le> of_int \<lfloor>e\<rfloor>" by (simp only: of_int_le_iff)
      also have "\<dots> \<le> e" by simp
      finally have ne: "nextSam b \<le> e" by (simp add: nextSam_def sam_def)
      from 1(2) lt False consider "s = TimeSpan b (nextSam b)" | "s \<in> set (cycles_from (nextSam b) e)"
        by (auto simp: cycles_from.simps[of b e])
      then show ?thesis
      proof cases
        case 1
        then show ?thesis using nb ne by (simp add: TimeSpan_def)
      next
        case 2
        then have "nextSam b \<le> tbegin s \<and> tbegin s < tend s \<and> tend s \<le> e \<and> tend s \<le> nextSam (tbegin s)"
          using "1.IH"[OF lt False] by simp
        then show ?thesis using nb by simp
      qed
    qed
  qed
qed

lemma spanCycles_pieces:
  assumes "tbegin sp \<le> tend sp" "s \<in> set (spanCycles sp)"
  shows "span_within sp s \<and> tend s \<le> nextSam (tbegin s)"
proof (cases "tbegin sp = tend sp")
  case True
  then have "s = TimeSpan (tbegin sp) (tend sp)" using assms by (simp add: spanCycles_def)
  moreover have "tbegin sp < nextSam (tbegin sp)" by (rule sam_bounds)
  ultimately show ?thesis using True by (simp add: span_within_def TimeSpan_def)
next
  case False
  then have "s \<in> set (cycles_from (tbegin sp) (tend sp))" using assms by (simp add: spanCycles_def)
  from cycles_from_pieces[OF this] show ?thesis by (simp add: span_within_def)
qed

lemma contained_pure: "contained (pure v)"
proof (rule containedI)
  fix st :: "'b state" and haps :: "'a hap list" and h
  assume fw: "tbegin (span st) \<le> tend (span st)" and q: "query (pure v) st = Inr haps" and h: "h \<in> set haps"
  from q h obtain s where s: "s \<in> set (spanCycles (span st))"
    and hh: "h = Hap (Some (wholeCycle (tbegin s))) s v empty_context"
    by (auto simp: pure_def Pattern_def)
  from spanCycles_pieces[OF fw s] have w: "span_within (span st) s" and e: "tend s \<le> nextSam (tbegin s)" by simp_all
  have "sam (tbegin s) \<le> tbegin s" by (rule sam_bounds)
  then show "hap_ok (span st) h"
    using w e by (simp add: hh hap_ok_def part_in_whole_iff Hap_def wholeCycle_def TimeSpan_def span_within_def)
qed

lemma mapE_Inr_set:
  assumes "mapE f xs = Inr ys" "y \<in> set ys"
  shows "\<exists>x\<in>set xs. f x = Inr y"
  using assms
proof (induction xs arbitrary: ys)
  case Nil
  then show ?case by simp
next
  case (Cons x xs)
  then show ?case by (auto split: sum.splits)
qed

lemma flatMapE_Inr_set:
  assumes "flatMapE f xs = Inr ys" "y \<in> set ys"
  shows "\<exists>x\<in>set xs. \<exists>zs. f x = Inr zs \<and> y \<in> set zs"
proof -
  from assms(1) obtain yss where m: "mapE f xs = Inr yss" and c: "ys = concat yss"
    by (cases "mapE f xs") (auto simp: flatMapE_def)
  from assms(2) c obtain zs where "zs \<in> set yss" "y \<in> set zs" by auto
  with mapE_Inr_set[OF m] show ?thesis by blast
qed

lemma bindE_Inr_iff: "bindE m f = Inr y \<longleftrightarrow> (\<exists>x. m = Inr x \<and> f x = Inr y)"
  by (cases m) simp_all

lemma contained_map:
  assumes p: "contained p"
    and q: "\<And>st. query q st = bindE (query p st) (\<lambda>haps. Inr (map f haps))"
    and f: "\<And>sp h. hap_ok sp h \<Longrightarrow> hap_ok sp (f h)"
  shows "contained q"
proof (rule containedI)
  fix st haps h
  assume fw: "tbegin (span st) \<le> tend (span st)" and qq: "query q st = Inr haps" and h: "h \<in> set haps"
  from qq obtain xs where xs: "query p st = Inr xs" and m: "haps = map f xs"
    unfolding q by (cases "query p st") auto
  from h m obtain x where "x \<in> set xs" "h = f x" by auto
  with containedD[OF p fw xs] f show "hap_ok (span st) h" by blast
qed

lemma contained_filter:
  assumes p: "contained p"
    and q: "\<And>st. query q st = bindE (query p st) (\<lambda>haps. Inr (filter t haps))"
  shows "contained q"
proof (rule containedI)
  fix st haps h
  assume fw: "tbegin (span st) \<le> tend (span st)" and qq: "query q st = Inr haps" and h: "h \<in> set haps"
  from qq obtain xs where xs: "query p st = Inr xs" and m: "haps = filter t xs"
    unfolding q by (cases "query p st") auto
  from h m have "h \<in> set xs" by auto
  with containedD[OF p fw xs] show "hap_ok (span st) h" by blast
qed

lemma hap_ok_withValue: "hap_ok sp h \<Longrightarrow> hap_ok sp (hap_withValue g h)"
  by (simp add: hap_ok_def part_in_whole_iff hap_withValue_def Hap_def)

lemma hap_ok_setContext: "hap_ok sp h \<Longrightarrow> hap_ok sp (hap_setContext c h)"
  by (simp add: hap_ok_def part_in_whole_iff)

lemma contained_withValue: "contained p \<Longrightarrow> contained (withValue g p)"
  by (rule contained_map[where f = "hap_withValue g"])
     (simp_all add: withValue_def Pattern_def hap_ok_withValue)

lemma contained_fmap: "contained p \<Longrightarrow> contained (fmap g p)"
  by (simp add: fmap_def contained_withValue)

lemma contained_setSteps [simp]: "contained (setSteps s p) = contained p"
  by (simp add: contained_def setSteps_def Pattern_def)

lemma contained_filterValues: "contained p \<Longrightarrow> contained (filterValues t p)"
  by (rule contained_filter[where t = "\<lambda>hap. t (hvalue hap)"])
     (simp_all add: filterValues_def setSteps_def Pattern_def)

lemma contained_pfunc: "contained r \<Longrightarrow> contained (pfunc ps r p)"
  by (rule contained_map[where f = "\<lambda>h. hap_setContext (add_locations [] (hcontext h)) h"])
     (simp_all add: query_pfunc hap_ok_setContext)

lemma contained_underscore: "contained r \<Longrightarrow> contained (underscore ps r p)"
  by (simp add: contained_def query_underscore)

lemma contained_stack:
  assumes "\<forall>x\<in>set ps. contained x"
  shows "contained (stack cs ps)"
proof (rule containedI)
  fix st :: "'b state" and haps :: "'a hap list" and h
  assume fw: "tbegin (span st) \<le> tend (span st)" and q: "query (stack cs ps) st = Inr haps" and h: "h \<in> set haps"
  from q have "flatMapE (\<lambda>pat. query pat st) ps = Inr haps" by (simp add: stack_def Pattern_def)
  from flatMapE_Inr_set[OF this h] obtain x zs where "x \<in> set ps" "query x st = Inr zs" "h \<in> set zs" by blast
  then show "hap_ok (span st) h" using assms fw by (blast dest: containedD)
qed

lemma span_within_trans:
  assumes "span_within sp s" "span_within s p"
  shows "span_within sp p"
  using assms by (auto simp: span_within_def)

lemma contained_splitQueries:
  assumes "contained p"
  shows "contained (splitQueries p)"
proof (rule containedI)
  fix st :: "'b state" and haps :: "'a hap list" and h
  assume fw: "tbegin (span st) \<le> tend (span st)" and q: "query (splitQueries p) st = Inr haps" and h: "h \<in> set haps"
  from q have "flatMapE (\<lambda>subspan. query p (setSpan subspan st)) (spanCycles (span st)) = Inr haps"
    by (simp add: splitQueries_def Pattern_def)
  from flatMapE_Inr_set[OF this h] obtain s zs where s: "s \<in> set (spanCycles (span st))"
    and qs: "query p (setSpan s st) = Inr zs" and hz: "h \<in> set zs" by blast
  from spanCycles_pieces[OF fw s] have w: "span_within (span st) s" by simp
  then have "tbegin (span (setSpan s st)) \<le> tend (span (setSpan s st))"
    by (simp add: setSpan_def State_def span_within_def)
  from containedD[OF assms this qs hz] have "hap_ok s h" by (simp add: setSpan_def State_def)
  then show "hap_ok (span st) h" using w by (auto simp: hap_ok_def intro: span_within_trans)
qed

lemma hap_ok_shift:
  assumes "hap_ok (withTime (\<lambda>t. t - d) sp) h"
  shows "hap_ok sp (hap_withSpan (withTime (\<lambda>t. t + d)) h)"
  using assms
  by (cases "whole h")
     (auto simp: hap_ok_def span_within_def part_in_whole_iff withTime_def TimeSpan_def)

lemma hap_ok_scale:
  assumes "hap_ok (withTime (\<lambda>t. t * k) sp) h" "0 < k"
  shows "hap_ok sp (hap_withSpan (withTime (\<lambda>t. t / k)) h)"
  using assms
  by (cases "whole h")
     (auto simp: hap_ok_def span_within_def part_in_whole_iff withTime_def TimeSpan_def
        pos_le_divide_eq pos_divide_le_eq pos_less_divide_eq pos_divide_less_eq divide_le_cancel divide_less_cancel)

lemma mapE_all_fail:
  assumes "\<And>x. \<exists>e. f x = Inl e" "mapE f xs = Inr ys"
  shows "ys = []"
proof (cases xs)
  case Nil
  with assms(2) show ?thesis by simp
next
  case (Cons x xs')
  from assms(1)[of x] obtain e where "f x = Inl e" by blast
  with assms(2) Cons show ?thesis by simp
qed

lemma contained_fast_func:
  assumes p: "contained p" and k: "0 \<le> Fraction k"
  shows "contained (fast_func k p)"
proof (cases "k = Num 0")
  case True
  then show ?thesis by (simp add: fast_func_def silence_def contained_gap)
next
  case nz: False
  show ?thesis
  proof (cases "Fraction k = 0")
    case True
    show ?thesis
    proof (rule containedI)
      fix st :: "'b state" and haps :: "'a hap list" and h
      assume q: "query (fast_func k p) st = Inr haps" and h: "h \<in> set haps"
      from q nz obtain xs where "mapE (hap_withSpanE (withTimeE (\<lambda>t. fdiv t 0))) xs = Inr haps"
        by (auto simp: fast_func_def Let_def setSteps_def Pattern_def withHapTimeE_def withHapSpanE_def
            True bindE_Inr_iff)
      moreover have "\<exists>e. hap_withSpanE (withTimeE (\<lambda>t. fdiv t 0)) x = Inl e" for x :: "'a hap"
        by (cases "whole x") (simp_all add: hap_withSpanE_def withTimeE_def fdiv_def)
      ultimately have "haps = []" by (rule mapE_all_fail[rotated])
      with h show "hap_ok (span st) h" by simp
    qed
  next
    case False
    with k have pos: "0 < Fraction k" by simp
    show ?thesis
    proof (rule containedI)
      fix st :: "'b state" and haps :: "'a hap list" and h
      assume fw: "tbegin (span st) \<le> tend (span st)" and q: "query (fast_func k p) st = Inr haps"
        and h: "h \<in> set haps"
      let ?st = "state_withSpan (withTime (\<lambda>t. t * Fraction k)) st"
      from q obtain xs where xs: "query p ?st = Inr xs"
        and m: "haps = map (hap_withSpan (withTime (\<lambda>t. t / Fraction k))) xs"
        using False by (auto simp: query_fast_func bindE_Inr_iff)
      have fw': "tbegin (span ?st) \<le> tend (span ?st)"
        using fw pos by (simp add: state_withSpan_def State_def withTime_def TimeSpan_def mult_right_mono)
      from h m obtain x where x: "x \<in> set xs" and hx: "h = hap_withSpan (withTime (\<lambda>t. t / Fraction k)) x" by auto
      from containedD[OF p fw' xs x] have "hap_ok (withTime (\<lambda>t. t * Fraction k) (span st)) x"
        by (simp add: state_withSpan_def State_def)
      from hap_ok_scale[OF this pos] show "hap_ok (span st) h" by (simp add: hx)
    qed
  qed
qed

lemma contained_fast: "contained p \<Longrightarrow> 0 \<le> Fraction k \<Longrightarrow> contained (fast k p)"
  by (simp add: fast_def contained_pfunc contained_fast_func)

lemma contained_u_fast: "contained p \<Longrightarrow> 0 \<le> Fraction k \<Longrightarrow> contained (u_fast k p)"
  by (simp add: u_fast_def contained_underscore contained_fast_func)

lemma contained_pace:
  assumes "contained p" "0 \<le> Fraction t" "\<forall>s. steps p = Some s \<longrightarrow> 0 \<le> s"
  shows "contained (pace t p)"
proof -
  have "contained (pace_func t p)"
  proof (cases "steps p")
    case None
    then show ?thesis using assms(1) by (simp add: pace_func_def)
  next
    case (Some s)
    with assms(3) have "0 \<le> s" by simp
    then have "0 \<le> Fraction (Frac (Fraction t / s))" using assms(2) by simp
    from contained_u_fast[OF assms(1) this] show ?thesis
      using Some by (simp add: pace_func_def nothing_def contained_gap)
  qed
  then show ?thesis by (simp add: pace_def contained_pfunc)
qed

lemma contained_slow_func:
  assumes "contained p" "0 \<le> Fraction k" "slow_func k p = Inr q"
  shows "contained q"
proof (cases "k = Num 0")
  case True
  with assms(3) show ?thesis by (auto simp: slow_func_def silence_def contained_gap)
next
  case False
  with assms(3) have nz: "Fraction k \<noteq> 0" and q: "q = u_fast (Frac (1 / Fraction k)) p"
    by (auto simp: slow_func_def fdiv_def split: if_splits)
  show ?thesis unfolding q using assms(1,2) by (intro contained_u_fast) simp_all
qed

lemma contained_slow:
  assumes "contained p" "0 \<le> Fraction k" "slow k p = Inr q"
  shows "contained q"
proof -
  from assms(3) obtain r where r: "slow_func k p = Inr r" and q: "q = pfunc False r p"
    by (auto simp: slow_def bindE_Inr_iff)
  from contained_slow_func[OF assms(1,2) r] show ?thesis unfolding q by (rule contained_pfunc)
qed

lemma contained_u_slow:
  assumes "contained p" "0 \<le> Fraction k" "u_slow k p = Inr q"
  shows "contained q"
proof -
  from assms(3) obtain r where r: "slow_func k p = Inr r" and q: "q = underscore False r p"
    by (auto simp: u_slow_def bindE_Inr_iff)
  from contained_slow_func[OF assms(1,2) r] show ?thesis unfolding q by (rule contained_underscore)
qed

lemma contained_early_func:
  assumes p: "contained p"
  shows "contained (early_func off p)"
proof (rule containedI)
  fix st :: "'b state" and haps :: "'a hap list" and h
  assume fw: "tbegin (span st) \<le> tend (span st)" and q: "query (early_func off p) st = Inr haps"
    and h: "h \<in> set haps"
  let ?d = "- Fraction off"
  let ?st = "state_withSpan (withTime (\<lambda>t. t - ?d)) st"
  from q obtain xs where xs: "query p ?st = Inr xs"
    and m: "haps = map (hap_withSpan (withTime (\<lambda>t. t + ?d))) xs"
    by (auto simp: early_func_def Let_def withHapTime_def withHapSpan_def withQueryTime_def Pattern_def
        bindE_Inr_iff)
  have fw': "tbegin (span ?st) \<le> tend (span ?st)"
    using fw by (simp add: state_withSpan_def State_def withTime_def TimeSpan_def)
  from h m obtain x where x: "x \<in> set xs" and hx: "h = hap_withSpan (withTime (\<lambda>t. t + ?d)) x" by auto
  from containedD[OF p fw' xs x] have "hap_ok (withTime (\<lambda>t. t - ?d) (span st)) x"
    by (simp add: state_withSpan_def State_def)
  from hap_ok_shift[OF this] show "hap_ok (span st) h" by (simp add: hx)
qed

lemma contained_u_early: "contained p \<Longrightarrow> contained (u_early off p)"
  by (simp add: u_early_def contained_underscore contained_early_func)

lemma contained_u_late: "contained p \<Longrightarrow> contained (u_late off p)"
  by (simp add: u_late_def late_func_def contained_underscore contained_u_early)

lemma contained_slowcat_query:
  assumes "\<forall>x\<in>set ps. contained x"
  shows "contained (Pattern (slowcat_query ps) None)"
proof (rule containedI)
  fix st :: "'b state" and haps :: "'a hap list" and h
  assume fw: "tbegin (span st) \<le> tend (span st)"
    and q: "query (Pattern (slowcat_query ps) None) st = Inr haps" and h: "h \<in> set haps"
  show "hap_ok (span st) h"
  proof (cases "mod_index (sam (tbegin (span st))) (length ps)")
    case None
    with q h show ?thesis by (simp add: Pattern_def slowcat_query_def)
  next
    case (Some i)
    show ?thesis
    proof (cases "i < length ps")
      case False
      with q h Some show ?thesis by (simp add: Pattern_def slowcat_query_def)
    next
      case True
      then have ne: "length ps \<noteq> 0" by auto
      define d where "d = (of_int \<lfloor>tbegin (span st)\<rfloor> :: rat) - of_int \<lfloor>tbegin (span st) / of_nat (length ps)\<rfloor>"
      let ?st = "setSpan (withTime (\<lambda>t. t - d) (span st)) st"
      from q Some True ne obtain xs where xs: "query (ps ! i) ?st = Inr xs"
        and m: "haps = map (hap_withSpan (withTime (\<lambda>t. t + d))) xs"
        by (auto simp: Pattern_def slowcat_query_def Let_def fdiv_def query_withHapTime bindE_Inr_iff d_def)
      have c: "contained (ps ! i)" using assms True by simp
      have fw': "tbegin (span ?st) \<le> tend (span ?st)"
        using fw by (simp add: setSpan_def State_def withTime_def TimeSpan_def)
      from h m obtain x where x: "x \<in> set xs" and hx: "h = hap_withSpan (withTime (\<lambda>t. t + d)) x" by auto
      from containedD[OF c fw' xs x] have "hap_ok (withTime (\<lambda>t. t - d) (span st)) x"
        by (simp add: setSpan_def State_def)
      from hap_ok_shift[OF this] show ?thesis by (simp add: hx)
    qed
  qed
qed

lemma contained_slowcat:
  assumes "\<forall>x\<in>set ps. contained x"
  shows "contained (slowcat cs ps)"
proof (cases "\<exists>p. ps = [p]")
  case True
  with assms show ?thesis by (auto simp: slowcat_def)
next
  case False
  then have "slowcat cs ps = setSteps (if cs then lcm_steps (map steps ps) else None)
               (splitQueries (Pattern (slowcat_query ps) None))"
    by (cases ps; cases "tl ps") (simp_all add: slowcat_def)
  then show ?thesis using contained_slowcat_query[OF assms] by (simp add: contained_splitQueries)
qed

lemma contained_fastcat:
  assumes "\<forall>x\<in>set ps. contained x"
  shows "contained (fastcat cs ps)"
  using contained_slowcat[OF assms, of cs]
  by (simp add: fastcat_def Let_def contained_u_fast)

lemma intersection_Some:
  assumes "intersection a b = Some s"
  shows "tbegin s = max (tbegin a) (tbegin b)" "tend s = min (tend a) (tend b)"
    "tbegin s \<le> tend s"
    "tbegin a < tend a \<Longrightarrow> tbegin b < tend b \<Longrightarrow> tbegin s < tend s"
  using assms
  by (auto simp: intersection_def Let_def TimeSpan_def split: if_splits)

lemma wholeOrPart_forward:
  assumes "hap_ok sp h"
  shows "tbegin (wholeOrPart h) \<le> tend (wholeOrPart h)"
    and "tbegin (wholeOrPart h) \<le> tbegin (part h)" and "tend (part h) \<le> tend (wholeOrPart h)"
  using assms
  by (cases "whole h"; auto simp: hap_ok_def part_in_whole_iff span_within_def wholeOrPart_def)+

lemma hap_ok_combine_left:
  assumes f: "hap_ok sp hf" and v: "hap_ok (wholeOrPart hf) hv"
    and i: "intersection (part hf) (part hv) = Some np"
  shows "hap_ok sp (Hap (whole hf) np x c)"
proof -
  note s = intersection_Some[OF i]
  have pf: "tbegin sp \<le> tbegin (part hf)" "tbegin (part hf) \<le> tend (part hf)" "tend (part hf) \<le> tend sp"
    and sf: "tbegin sp < tend sp \<Longrightarrow> tbegin (part hf) < tend (part hf)"
    using f by (auto simp: hap_ok_def span_within_def)
  have sv: "tbegin (wholeOrPart hf) < tend (wholeOrPart hf) \<Longrightarrow> tbegin (part hv) < tend (part hv)"
    using v by (auto simp: hap_ok_def span_within_def)
  have strict: "tbegin np < tend np" if "tbegin sp < tend sp"
  proof -
    have a: "tbegin (part hf) < tend (part hf)" using sf that by simp
    then have "tbegin (wholeOrPart hf) < tend (wholeOrPart hf)"
      using wholeOrPart_forward(2,3)[OF f] by linarith
    then have "tbegin (part hv) < tend (part hv)" by (rule sv)
    with a show ?thesis by (rule s(4))
  qed
  have w: "span_within sp np"
    using s(1,2,3) pf strict by (auto simp: span_within_def)
  have "part_in_whole (Hap (whole hf) np x c)"
    using f s(1,2,3) by (auto simp: part_in_whole_iff hap_ok_def Hap_def)
  with w show ?thesis by (simp add: hap_ok_def Hap_def)
qed

lemma intersection_commute_bounds:
  assumes "intersection a b = Some s"
  shows "tbegin s = max (tbegin b) (tbegin a)" "tend s = min (tend b) (tend a)"
  using intersection_Some(1,2)[OF assms] by (simp_all add: max.commute min.commute)

lemma hap_ok_combine_right:
  assumes v: "hap_ok sp hv" and f: "hap_ok (wholeOrPart hv) hf"
    and i: "intersection (part hf) (part hv) = Some np"
  shows "hap_ok sp (Hap (whole hv) np x c)"
proof -
  note s = intersection_Some[OF i]
  have pv: "tbegin sp \<le> tbegin (part hv)" "tbegin (part hv) \<le> tend (part hv)" "tend (part hv) \<le> tend sp"
    and sv: "tbegin sp < tend sp \<Longrightarrow> tbegin (part hv) < tend (part hv)"
    using v by (auto simp: hap_ok_def span_within_def)
  have sf: "tbegin (wholeOrPart hv) < tend (wholeOrPart hv) \<Longrightarrow> tbegin (part hf) < tend (part hf)"
    using f by (auto simp: hap_ok_def span_within_def)
  have strict: "tbegin np < tend np" if "tbegin sp < tend sp"
  proof -
    have a: "tbegin (part hv) < tend (part hv)" using sv that by simp
    then have "tbegin (wholeOrPart hv) < tend (wholeOrPart hv)"
      using wholeOrPart_forward(2,3)[OF v] by linarith
    then have "tbegin (part hf) < tend (part hf)" by (rule sf)
    then show ?thesis using a by (rule s(4))
  qed
  have w: "span_within sp np"
    using s(1,2,3) pv strict by (auto simp: span_within_def)
  have "part_in_whole (Hap (whole hv) np x c)"
    using v s(1,2,3) by (auto simp: part_in_whole_iff hap_ok_def Hap_def)
  with w show ?thesis by (simp add: hap_ok_def Hap_def)
qed

lemma hap_ok_combine_both:
  assumes f: "hap_ok sp hf" and v: "hap_ok sp hv"
    and i: "intersection (part hf) (part hv) = Some np"
    and wb: "whole_both (whole hf) (whole hv) = Inr w"
  shows "hap_ok sp (Hap w np x c)"
proof -
  note s = intersection_Some[OF i]
  have w: "span_within sp np"
    using s f v by (auto simp: span_within_def hap_ok_def)
  have "part_in_whole (Hap w np x c)"
  proof (cases w)
    case None
    then show ?thesis by (simp add: part_in_whole_iff Hap_def)
  next
    case (Some ww)
    with wb obtain a b where a: "whole hf = Some a" and b: "whole hv = Some b"
      and ab: "intersection a b = Some ww"
      by (auto simp: whole_both_def intersection_e_def bindE_Inr_iff split: option.splits)
    note t = intersection_Some[OF ab]
    show ?thesis
      using f v a b s(1,2,3) t(1,2) Some
      by (auto simp: part_in_whole_iff hap_ok_def Hap_def)
  qed
  with w show ?thesis by (simp add: hap_ok_def Hap_def)
qed

lemma contained_appLeft:
  assumes f: "contained pf" and v: "contained pv"
  shows "contained (appLeft pf pv)"
proof (rule containedI)
  fix st :: "'c state" and haps :: "'b hap list" and h
  assume fw: "tbegin (span st) \<le> tend (span st)" and q: "query (appLeft pf pv) st = Inr haps"
    and h: "h \<in> set haps"
  let ?G = "\<lambda>hap_func hap_val. case intersection (part hap_func) (part hap_val) of
                          None \<Rightarrow> []
                        | Some new_part \<Rightarrow>
                            [Hap (whole hap_func) new_part ((hvalue hap_func) (hvalue hap_val))
                               (combineContext hap_val hap_func)]"
  let ?F = "\<lambda>hap_func. bindE (query pv (setSpan (wholeOrPart hap_func) st))
              (\<lambda>hap_vals. Inr (concat (map (?G hap_func) hap_vals)))"
  from q obtain hfs where hfs: "query pf st = Inr hfs" and fm: "flatMapE ?F hfs = Inr haps"
    by (auto simp: appLeft_def setSteps_def Pattern_def bindE_Inr_iff)
  from flatMapE_Inr_set[OF fm h] obtain hf zs where hf: "hf \<in> set hfs" and z: "?F hf = Inr zs"
    and hz: "h \<in> set zs" by blast
  from z obtain hvs where hvs: "query pv (setSpan (wholeOrPart hf) st) = Inr hvs"
    and zs: "zs = concat (map (?G hf) hvs)" by (auto simp: bindE_Inr_iff)
  from hz zs obtain hv where hv: "hv \<in> set hvs" and hg: "h \<in> set (?G hf hv)" by auto
  then obtain np where np: "intersection (part hf) (part hv) = Some np"
    and hh: "h = Hap (whole hf) np ((hvalue hf) (hvalue hv)) (combineContext hv hf)"
    by (cases "intersection (part hf) (part hv)") auto
  have okf: "hap_ok (span st) hf" by (rule containedD[OF f fw hfs hf])
  have "tbegin (span (setSpan (wholeOrPart hf) st)) \<le> tend (span (setSpan (wholeOrPart hf) st))"
    using wholeOrPart_forward(1)[OF okf] by (simp add: setSpan_def State_def)
  from containedD[OF v this hvs hv] have okv: "hap_ok (wholeOrPart hf) hv"
    by (simp add: setSpan_def State_def)
  show "hap_ok (span st) h" unfolding hh by (rule hap_ok_combine_left[OF okf okv np])
qed

lemma contained_appRight:
  assumes f: "contained pf" and v: "contained pv"
  shows "contained (appRight pf pv)"
proof (rule containedI)
  fix st :: "'c state" and haps :: "'b hap list" and h
  assume fw: "tbegin (span st) \<le> tend (span st)" and q: "query (appRight pf pv) st = Inr haps"
    and h: "h \<in> set haps"
  let ?G = "\<lambda>hap_val hap_func. case intersection (part hap_func) (part hap_val) of
                          None \<Rightarrow> []
                        | Some new_part \<Rightarrow>
                            [Hap (whole hap_val) new_part ((hvalue hap_func) (hvalue hap_val))
                               (combineContext hap_val hap_func)]"
  let ?F = "\<lambda>hap_val. bindE (query pf (setSpan (wholeOrPart hap_val) st))
              (\<lambda>hap_funcs. Inr (concat (map (?G hap_val) hap_funcs)))"
  from q obtain hvs where hvs: "query pv st = Inr hvs" and fm: "flatMapE ?F hvs = Inr haps"
    by (auto simp: appRight_def setSteps_def Pattern_def bindE_Inr_iff)
  from flatMapE_Inr_set[OF fm h] obtain hv zs where hv: "hv \<in> set hvs" and z: "?F hv = Inr zs"
    and hz: "h \<in> set zs" by blast
  from z obtain hfs where hfs: "query pf (setSpan (wholeOrPart hv) st) = Inr hfs"
    and zs: "zs = concat (map (?G hv) hfs)" by (auto simp: bindE_Inr_iff)
  from hz zs obtain hf where hf: "hf \<in> set hfs" and hg: "h \<in> set (?G hv hf)" by auto
  then obtain np where np: "intersection (part hf) (part hv) = Some np"
    and hh: "h = Hap (whole hv) np ((hvalue hf) (hvalue hv)) (combineContext hv hf)"
    by (cases "intersection (part hf) (part hv)") auto
  have okv: "hap_ok (span st) hv" by (rule containedD[OF v fw hvs hv])
  have "tbegin (span (setSpan (wholeOrPart hv) st)) \<le> tend (span (setSpan (wholeOrPart hv) st))"
    using wholeOrPart_forward(1)[OF okv] by (simp add: setSpan_def State_def)
  from containedD[OF f this hfs hf] have okf: "hap_ok (wholeOrPart hv) hf"
    by (simp add: setSpan_def State_def)
  show "hap_ok (span st) h" unfolding hh by (rule hap_ok_combine_right[OF okv okf np])
qed

lemma removeUndefineds_set: "y \<in> set (removeUndefineds xs) \<longleftrightarrow> Some y \<in> set xs"
  by (induction xs) (auto simp: removeUndefineds_def split: option.splits)

lemma contained_appBoth:
  assumes f: "contained pf" and v: "contained pv"
  shows "contained (appBoth cs pf pv)"
proof (rule containedI)
  fix st :: "'c state" and haps :: "'b hap list" and h
  assume fw: "tbegin (span st) \<le> tend (span st)" and q: "query (appBoth cs pf pv) st = Inr haps"
    and h: "h \<in> set haps"
  let ?F = "\<lambda>hap_vals hap_func. bindE (mapE (appWhole_apply whole_both hap_func) hap_vals)
                (\<lambda>xs. Inr (removeUndefineds xs))"
  from q obtain hfs hvs where hfs: "query pf st = Inr hfs" and hvs: "query pv st = Inr hvs"
    and fm: "flatMapE (?F hvs) hfs = Inr haps"
    by (auto simp: query_appBoth appWhole_def Pattern_def bindE_Inr_iff)
  from flatMapE_Inr_set[OF fm h] obtain hf zs where hf: "hf \<in> set hfs" and z: "?F hvs hf = Inr zs"
    and hz: "h \<in> set zs" by blast
  from z obtain xs where xs: "mapE (appWhole_apply whole_both hf) hvs = Inr xs"
    and zs: "zs = removeUndefineds xs" by (auto simp: bindE_Inr_iff)
  from hz zs have "Some h \<in> set xs" by (simp add: removeUndefineds_set)
  from mapE_Inr_set[OF xs this] obtain hv where hv: "hv \<in> set hvs"
    and ap: "appWhole_apply whole_both hf hv = Inr (Some h)" by blast
  from ap obtain np w where np: "intersection (part hf) (part hv) = Some np"
    and w: "whole_both (whole hf) (whole hv) = Inr w"
    and hh: "h = Hap w np ((hvalue hf) (hvalue hv)) (combineContext hv hf)"
    by (auto simp: appWhole_apply_def bindE_Inr_iff split: option.splits)
  have okf: "hap_ok (span st) hf" by (rule containedD[OF f fw hfs hf])
  have okv: "hap_ok (span st) hv" by (rule containedD[OF v fw hvs hv])
  show "hap_ok (span st) h" unfolding hh by (rule hap_ok_combine_both[OF okf okv np w])
qed

lemma contained_degradeBy: "contained p \<Longrightarrow> contained (degradeBy x p)"
  by (simp add: degradeBy_def degradeBy_func_def u_degradeByWith_def degradeByWith_func_def rand_def
      contained_pfunc contained_underscore contained_appLeft contained_fmap contained_filterValues
      contained_signal)

lemma contained_splitQueries_cycle:
  assumes "contained_cycle p"
  shows "contained (splitQueries p)"
proof (rule containedI)
  fix st :: "'b state" and haps :: "'a hap list" and h
  assume fw: "tbegin (span st) \<le> tend (span st)" and q: "query (splitQueries p) st = Inr haps" and h: "h \<in> set haps"
  from q have "flatMapE (\<lambda>subspan. query p (setSpan subspan st)) (spanCycles (span st)) = Inr haps"
    by (simp add: splitQueries_def Pattern_def)
  from flatMapE_Inr_set[OF this h] obtain s zs where s: "s \<in> set (spanCycles (span st))"
    and qs: "query p (setSpan s st) = Inr zs" and hz: "h \<in> set zs" by blast
  from spanCycles_pieces[OF fw s] have w: "span_within (span st) s" and c: "tend s \<le> nextSam (tbegin s)"
    by simp_all
  from w have "tbegin (span (setSpan s st)) \<le> tend (span (setSpan s st))"
    by (simp add: setSpan_def State_def span_within_def)
  moreover have "tend (span (setSpan s st)) \<le> nextSam (tbegin (span (setSpan s st)))"
    using c by (simp add: setSpan_def State_def)
  ultimately have "hap_ok s h"
    using assms qs hz unfolding contained_cycle_def by (fastforce simp: setSpan_def State_def)
  then show "hap_ok (span st) h" using w by (auto simp: hap_ok_def intro: span_within_trans)
qed

lemma sam_unique:
  assumes "sam b \<le> x" "x < sam b + 1"
  shows "sam x = sam b"
proof -
  have "\<lfloor>x\<rfloor> = \<lfloor>b\<rfloor>"
    by (rule floor_unique) (use assms in \<open>simp_all add: sam_def\<close>)
  then show ?thesis by (simp add: sam_def)
qed

lemma fastGap_ef_ok:
  fixes h :: "'v hap"
  assumes K: "0 < K"
    and cyc: "tbegin sp \<le> tend sp" "tend sp \<le> nextSam (tbegin sp)"
    and qf: "fastGap_qf K sp = Some isp"
    and ok: "hap_ok isp x"
    and ef: "fastGap_ef K x = Inr h"
  shows "hap_ok sp h"
proof -
  define c0 where "c0 = sam (tbegin sp)"
  define b where "b = tbegin sp - c0"
  define e where "e = tend sp - c0"
  have b0: "0 \<le> b" and b1: "b < 1" and be: "b \<le> e" and e1: "e \<le> 1"
    using sam_bounds[of "tbegin sp"] cyc by (simp_all add: b_def e_def c0_def nextSam_def)
  from qf have bp: "b * K < 1"
    and isp: "isp = TimeSpan (c0 + b * K) (c0 + min (e * K) 1)"
    by (auto simp: fastGap_qf_def Let_def c0_def b_def e_def min_def split: if_splits)
  define pb where "pb = tbegin (part x) - c0"
  define pe where "pe = tend (part x) - c0"
  from ok have p1: "b * K \<le> pb" and p2: "pb \<le> pe" and p3: "pe \<le> min (e * K) 1"
    and p4: "b * K < min (e * K) 1 \<Longrightarrow> pb < pe"
    by (auto simp: hap_ok_def span_within_def isp TimeSpan_def pb_def pe_def)
  have bK: "0 \<le> b * K" using b0 K by simp
  have pb1: "pb < 1"
  proof (cases "b * K < min (e * K) 1")
    case True
    from p4[OF this] p3 show ?thesis by simp
  next
    case False
    then have "min (e * K) 1 \<le> b * K" by linarith
    with p1 p2 p3 have "pb = b * K" by linarith
    with bp show ?thesis by simp
  qed
  have sp_pb: "sam (tbegin (part x)) = c0"
    unfolding c0_def
    by (rule sam_unique) (use p1 bK pb1 in \<open>simp_all add: pb_def c0_def\<close>)
  have pbK: "b \<le> pb / K" using p1 K by (simp add: pos_le_divide_eq)
  have peK: "pe / K \<le> e"
  proof -
    from p3 have "pe \<le> e * K" by simp
    then show ?thesis using K by (simp add: pos_divide_le_eq)
  qed
  have pbe: "pb / K \<le> pe / K" using p2 K by (simp add: divide_right_mono)
  define nb where "nb = c0 + min (pb / K) 1"
  define ne where "ne = c0 + min (pe / K) 1"
  have nK: "K \<noteq> 0" using K by simp
  from ef have hparts: "part h = TimeSpan nb ne" and hw: "whole h =
      map_option (\<lambda>w. TimeSpan (nb - (tbegin (part x) - tbegin w) / K) (ne + (tend w - tend (part x)) / K)) (whole x)"
    by (cases "whole x";
        auto simp: fastGap_ef_def Let_def fdiv_def nK sp_pb Hap_def TimeSpan_def nb_def ne_def pb_def pe_def)+
  have w1: "tbegin sp \<le> nb" using pbK b1 by (simp add: nb_def b_def min_def)
  have w2: "ne \<le> tend sp" using peK by (simp add: ne_def e_def min_def)
  have w3: "nb \<le> ne" using pbe by (simp add: nb_def ne_def min_def)
  have w4: "nb < ne" if "tbegin sp < tend sp"
  proof -
    from that have "b < e" by (simp add: b_def e_def)
    then have "b * K < e * K" using K by simp
    with bp have "b * K < min (e * K) 1" by simp
    from p4[OF this] have lt: "pb / K < pe / K" using K by (simp add: divide_strict_right_mono)
    have "pb < e * K" using \<open>pb < pe\<close> p3 by simp
    then have "pb / K < e" using K by (simp add: pos_divide_less_eq)
    then have "pb / K < 1" using e1 by simp
    with lt show ?thesis by (simp add: nb_def ne_def min_def)
  qed
  have sw: "span_within sp (part h)"
    using w1 w2 w3 w4 by (simp add: span_within_def hparts TimeSpan_def)
  have "part_in_whole h"
  proof (cases "whole x")
    case None
    then show ?thesis by (simp add: part_in_whole_iff hw)
  next
    case (Some w)
    with ok have "tbegin w \<le> tbegin (part x)" "tend (part x) \<le> tend w"
      by (auto simp: hap_ok_def part_in_whole_iff)
    then have "0 \<le> (tbegin (part x) - tbegin w) / K" "0 \<le> (tend w - tend (part x)) / K"
      using K by simp_all
    then show ?thesis using w3 Some
      by (simp add: part_in_whole_iff hw hparts TimeSpan_def)
  qed
  with sw show ?thesis by (simp add: hap_ok_def)
qed

lemma contained_fastGap_func:
  assumes p: "contained p" and K: "0 < Fraction k"
  shows "contained (fastGap_func k p)"
  unfolding fastGap_func_def
proof (rule contained_splitQueries_cycle, unfold contained_cycle_def, intro allI impI ballI)
  fix st :: "'b state" and haps :: "'a hap list" and h
  assume fw: "tbegin (span st) \<le> tend (span st)" and cy: "tend (span st) \<le> nextSam (tbegin (span st))"
    and q: "query (withHapE (fastGap_ef (Fraction k)) (withQuerySpanMaybe (fastGap_qf (Fraction k)) p)) st = Inr haps"
    and h: "h \<in> set haps"
  show "hap_ok (span st) h"
  proof (cases "fastGap_qf (Fraction k) (span st)")
    case None
    with q h show ?thesis by (simp add: withHapE_def withQuerySpanMaybe_def Pattern_def)
  next
    case (Some isp)
    with q obtain xs where xs: "query p (State isp (controls st)) = Inr xs"
      and m: "mapE (fastGap_ef (Fraction k)) xs = Inr haps"
      by (auto simp: withHapE_def withQuerySpanMaybe_def Pattern_def bindE_Inr_iff)
    from mapE_Inr_set[OF m h] obtain x where x: "x \<in> set xs" and ef: "fastGap_ef (Fraction k) x = Inr h"
      by blast
    have "tbegin isp \<le> tend isp"
    proof -
      have "(tbegin (span st) - sam (tbegin (span st))) * Fraction k
            \<le> (tend (span st) - sam (tbegin (span st))) * Fraction k"
        using fw K by (simp add: mult_right_mono)
      then show ?thesis using Some
        by (auto simp: fastGap_qf_def Let_def TimeSpan_def min_def split: if_splits)
    qed
    then have "tbegin (span (State isp (controls st))) \<le> tend (span (State isp (controls st)))"
      by (simp add: State_def)
    from containedD[OF p this xs x] have ok: "hap_ok isp x" by (simp add: State_def)
    show ?thesis by (rule fastGap_ef_ok[OF K fw cy Some ok ef])
  qed
qed

lemma contained_u_fastGap: "contained p \<Longrightarrow> 0 < Fraction k \<Longrightarrow> contained (u_fastGap k p)"
  by (simp add: u_fastGap_def contained_underscore contained_fastGap_func)

lemma contained_compress_func:
  assumes "contained p" "compress_func b e p = Inr q"
  shows "contained q"
proof (cases "Fraction b > Fraction e \<or> Fraction b > 1 \<or> Fraction e > 1 \<or> Fraction b < 0 \<or> Fraction e < 0")
  case True
  with assms(2) have "q = silence" by (auto simp: compress_func_def Let_def)
  then show ?thesis by (simp add: silence_def contained_gap)
next
  case False
  with assms(2) have ne: "Fraction e - Fraction b \<noteq> 0"
    and q: "q = u_late (Frac (Fraction b)) (u_fastGap (Frac (1 / (Fraction e - Fraction b))) p)"
    by (auto simp: compress_func_def Let_def fdiv_def split: if_splits)
  from False ne have "0 < 1 / (Fraction e - Fraction b)" by simp
  then show ?thesis unfolding q using assms(1)
    by (intro contained_u_late contained_u_fastGap) simp_all
qed

lemma contained_compress:
  assumes "contained p" "compress b e p = Inr q"
  shows "contained q"
proof -
  from assms(2) obtain r where r: "compress_func b e p = Inr r" and q: "q = pfunc False r p"
    by (auto simp: compress_def bindE_Inr_iff)
  from contained_compress_func[OF assms(1) r] show ?thesis unfolding q by (rule contained_pfunc)
qed

lemma contained_stepcat_loop:
  assumes "\<forall>tp\<in>set tps. contained (snd tp)" "stepcat_loop tot b tps = Inr qs"
  shows "\<forall>q\<in>set qs. contained q"
  using assms
proof (induction tps arbitrary: b qs)
  case Nil
  then show ?case by simp
next
  case (Cons tp tps)
  obtain time pat where tp: "tp = (time, pat)" by (cases tp)
  show ?case
  proof (cases "time = 0")
    case True
    with Cons tp show ?thesis by simp
  next
    case False
    with Cons.prems(2) tp obtain x y c cs' where
      c: "u_compress (Frac x) (Frac y) pat = Inr c"
      and r: "stepcat_loop tot (b + time) tps = Inr cs'" and qs: "qs = c # cs'"
      by (auto simp: Let_def bindE_Inr_iff)
    from c obtain r0 where r0: "compress_func (Frac x) (Frac y) pat = Inr r0" and cq: "c = underscore False r0 pat"
      by (auto simp: u_compress_def bindE_Inr_iff)
    have "contained pat" using Cons.prems(1) tp by simp
    from contained_compress_func[OF this r0] have "contained c" unfolding cq by (rule contained_underscore)
    moreover have "\<forall>q\<in>set cs'. contained q" using Cons.IH[OF _ r] Cons.prems(1) by simp
    ultimately show ?thesis by (simp add: qs)
  qed
qed

lemma contained_withSteps [simp]: "contained (withSteps cs f p) = contained p"
  by (simp add: contained_def withSteps_def Pattern_def)

lemma contained_stepcat_timed:
  assumes "\<forall>tp\<in>set tps. contained (snd tp)" "stepcat_timed cs tps = Inr q"
  shows "contained q"
proof (cases tps)
  case Nil
  with assms(2) have "q = nothing" by (simp add: stepcat_timed_def)
  then show ?thesis by (simp add: nothing_def contained_gap)
next
  case (Cons tp rest)
  show ?thesis
  proof (cases rest)
    case Nil
    obtain time pat where tp: "tp = (time, pat)" by (cases tp)
    with Nil Cons assms(2) have "q = withSteps cs (\<lambda>_. time) pat" by (simp add: stepcat_timed_def)
    moreover have "contained pat" using assms(1) Cons tp by simp
    ultimately show ?thesis by simp
  next
    case (Cons tp2 rest2)
    obtain time pat where tp: "tp = (time, pat)" by (cases tp)
    have "stepcat_timed cs tps =
        bindE (stepcat_loop (foldl (\<lambda>a b. a + b) 0 (map fst tps)) 0 tps)
          (\<lambda>pats. Inr (setSteps (Some (foldl (\<lambda>a b. a + b) 0 (map fst tps))) (stack cs pats)))"
      unfolding stepcat_timed_def \<open>tps = tp # rest\<close> Cons tp by (simp add: Let_def)
    with assms(2) obtain pats where
      l: "stepcat_loop (foldl (\<lambda>a b. a + b) 0 (map fst tps)) 0 tps = Inr pats"
      and q: "q = setSteps (Some (foldl (\<lambda>a b. a + b) 0 (map fst tps))) (stack cs pats)"
      by (auto simp: bindE_Inr_iff)
    from contained_stepcat_loop[OF assms(1) l] show ?thesis unfolding q
      by (simp add: contained_stack)
  qed
qed

lemma contained_stepcat:
  assumes "\<forall>x\<in>set ps. contained x" "stepcat cs ps = Inr q"
  shows "contained q"
  using assms(2) unfolding stepcat_def
  by (rule contained_stepcat_timed[rotated]) (use assms(1) in \<open>auto simp: findsteps_def\<close>)

text \<open>
  Together: every pattern built from \<open>pure\<close>, \<open>gap\<close> (\<open>silence\<close>, \<open>nothing\<close>),
  \<open>steady\<close> and \<open>signal\<close> by \<open>fmap\<close>, \<open>filterValues\<close>, \<open>degradeBy\<close>, \<open>early\<close>,
  \<open>late\<close>, \<open>fast\<close>, \<open>slow\<close> and \<open>pace\<close> by a factor that is not negative, \<open>compress\<close>,
  \<open>appBoth\<close>, \<open>appLeft\<close>, \<open>appRight\<close>, \<open>stack\<close>, \<open>slowcat\<close>, \<open>fastcat\<close> and \<open>stepcat\<close>
  is contained; and for a contained pattern and a query span with \<open>begin \<le> end\<close>,
  every event returned has a part that intersects the span and lies within the whole,
  when the event has one.
\<close>

theorem containment_kept:
  fixes p :: "('v, 'c) pattern" and pf :: "('a \<Rightarrow> 'v, 'c) pattern" and pv :: "('a, 'c) pattern"
    and ps :: "('v, 'c) pattern list" and g :: "'v \<Rightarrow> 'w"
  shows
    "contained (pure v :: ('v, 'c) pattern) \<and> contained (gap n :: ('v, 'c) pattern)
     \<and> contained (steady v :: ('v, 'c) pattern) \<and> contained (signal f :: ('v, 'c) pattern)
     \<and> (contained p \<longrightarrow>
          contained (fmap g p) \<and> contained (filterValues t p) \<and> contained (degradeBy x p)
          \<and> contained (u_early off p) \<and> contained (u_late off p)
          \<and> (0 \<le> Fraction k \<longrightarrow>
                contained (fast k p) \<and> contained (u_fast k p)
                \<and> (\<forall>q. slow k p = Inr q \<longrightarrow> contained q)
                \<and> ((\<forall>s. steps p = Some s \<longrightarrow> 0 \<le> s) \<longrightarrow> contained (pace k p)))
          \<and> (\<forall>q. compress b e p = Inr q \<longrightarrow> contained q))
     \<and> (contained pf \<and> contained pv \<longrightarrow>
          contained (appBoth cs pf pv) \<and> contained (appLeft pf pv) \<and> contained (appRight pf pv))
     \<and> ((\<forall>x\<in>set ps. contained x) \<longrightarrow>
          contained (stack cs ps) \<and> contained (slowcat cs ps) \<and> contained (fastcat cs ps)
          \<and> (\<forall>q. stepcat cs ps = Inr q \<longrightarrow> contained q))
     \<and> (contained p \<longrightarrow> tbegin (span st) \<le> tend (span st) \<longrightarrow> query p st = Inr haps
          \<longrightarrow> h \<in> set haps \<longrightarrow> intersects_span (span st) h \<and> part_in_whole h)"
proof -
  have last: "intersects_span (span st) h \<and> part_in_whole h"
    if "contained p" "tbegin (span st) \<le> tend (span st)" "query p st = Inr haps" "h \<in> set haps"
  proof -
    from containedD[OF that] have "hap_ok (span st) h" .
    then show ?thesis
      by (simp add: hap_ok_def intersects_span_def span_within_intersects)
  qed
  have base: "contained (pure v :: ('v, 'c) pattern) \<and> contained (gap n :: ('v, 'c) pattern)
     \<and> contained (steady v :: ('v, 'c) pattern) \<and> contained (signal f :: ('v, 'c) pattern)"
    by (simp add: contained_pure contained_gap contained_steady contained_signal)
  have one: "contained (fmap g p) \<and> contained (filterValues t p) \<and> contained (degradeBy x p)
          \<and> contained (u_early off p) \<and> contained (u_late off p)
          \<and> (0 \<le> Fraction k \<longrightarrow>
                contained (fast k p) \<and> contained (u_fast k p)
                \<and> (\<forall>q. slow k p = Inr q \<longrightarrow> contained q)
                \<and> ((\<forall>s. steps p = Some s \<longrightarrow> 0 \<le> s) \<longrightarrow> contained (pace k p)))
          \<and> (\<forall>q. compress b e p = Inr q \<longrightarrow> contained q)"
    if c: "contained p"
  proof (intro conjI impI allI)
    show "contained (fmap g p)" by (rule contained_fmap[OF c])
    show "contained (filterValues t p)" by (rule contained_filterValues[OF c])
    show "contained (degradeBy x p)" by (rule contained_degradeBy[OF c])
    show "contained (u_early off p)" by (rule contained_u_early[OF c])
    show "contained (u_late off p)" by (rule contained_u_late[OF c])
    show "contained (fast k p)" if "0 \<le> Fraction k" by (rule contained_fast[OF c that])
    show "contained (u_fast k p)" if "0 \<le> Fraction k" by (rule contained_u_fast[OF c that])
    show "contained q" if "0 \<le> Fraction k" "slow k p = Inr q" for q
      by (rule contained_slow[OF c that])
    show "contained (pace k p)" if "0 \<le> Fraction k" "\<forall>s. steps p = Some s \<longrightarrow> 0 \<le> s"
      by (rule contained_pace[OF c that])
    show "contained q" if "compress b e p = Inr q" for q by (rule contained_compress[OF c that])
  qed
  have two: "contained (appBoth cs pf pv) \<and> contained (appLeft pf pv) \<and> contained (appRight pf pv)"
    if "contained pf \<and> contained pv"
    using that by (simp add: contained_appBoth contained_appLeft contained_appRight)
  have many: "contained (stack cs ps) \<and> contained (slowcat cs ps) \<and> contained (fastcat cs ps)
          \<and> (\<forall>q. stepcat cs ps = Inr q \<longrightarrow> contained q)"
    if a: "\<forall>x\<in>set ps. contained x"
  proof (intro conjI impI allI)
    show "contained (stack cs ps)" by (rule contained_stack[OF a])
    show "contained (slowcat cs ps)" by (rule contained_slowcat[OF a])
    show "contained (fastcat cs ps)" by (rule contained_fastcat[OF a])
    show "contained q" if "stepcat cs ps = Inr q" for q by (rule contained_stepcat[OF a that])
  qed
  show ?thesis
    apply (rule conjI[OF conjunct1[OF base]])
    apply (rule conjI[OF conjunct1[OF conjunct2[OF base]]])
    apply (rule conjI[OF conjunct1[OF conjunct2[OF conjunct2[OF base]]]])
    apply (rule conjI[OF conjunct2[OF conjunct2[OF conjunct2[OF base]]]])
    apply (rule conjI)
     apply (rule impI, erule one)
    apply (rule conjI)
     apply (rule impI, erule two)
    apply (rule conjI)
     apply (rule impI, erule many)
    apply (intro impI)
    apply (erule (3) last)
    done
qed

text \<open>
  The factor of \<open>fast\<close> must not be negative there: \<open>pure("x").fast(-1)\<close>, queried at
  the point \<open>-1\<close>, returns a whole that begins at \<open>-1\<close> and ends at \<open>-2\<close>.
\<close>

lemma fast_negative_point:
  "query (fast (Num (- 1)) (pure ''x'')) (State (TimeSpan (- 1) (- 1)) ())
     = Inr [Hap (Some (TimeSpan (- 1) (- 2))) (TimeSpan (- 1) (- 1)) ''x'' \<lparr>locations = Some []\<rparr>]
   \<and> \<not> part_in_whole
         (Hap (Some (TimeSpan (- 1) (- 2))) (TimeSpan (- 1) (- 1)) ''x'' \<lparr>locations = Some []\<rparr>)"
proof -
  have b: "query (fast (Num (- 1)) (pure ''x'')) (State (TimeSpan (- 1) (- 1)) ())
     = Inr [Hap (Some (TimeSpan (- 1) (- 2))) (TimeSpan (- 1) (- 1)) ''x'' \<lparr>locations = Some []\<rparr>]"
    by code_simp
  show ?thesis
    using b by (simp add: part_in_whole_def Hap_def TimeSpan_def)
qed

subsection \<open>fast and slow as inverses\<close>

text \<open>
  For every pattern \<open>p\<close> and every non-zero rational \<open>k\<close> (given as a number or as a
  fraction), \<open>p.fast(k).slow(k)\<close> is built without an exception and returns, for every
  query, the same events as \<open>p\<close>, with identical wholes, parts and values. For the
  number \<open>0\<close>, the functions registered as \<open>fast\<close> and \<open>slow\<close> return \<open>silence\<close>
  itself, and the methods a pattern without events.
\<close>

theorem fast_slow_inverse:
  fixes p :: "('v, 'c) pattern"
  shows "(Fraction k \<noteq> 0 \<longrightarrow> (\<exists>q. slow k (fast k p) = Inr q \<and> same_events q p))
       \<and> fast_func (Num 0) p = silence
       \<and> same_events (fast (Num 0) p) silence
       \<and> slow_func (Num 0) p = Inr silence
       \<and> (\<exists>q. slow (Num 0) p = Inr q \<and> same_events q silence)"
proof (intro conjI impI)
  assume k: "Fraction k \<noteq> 0"
  define j where "j = 1 / Fraction k"
  have j: "j \<noteq> 0" using k by (simp add: j_def)
  have nz: "k \<noteq> Num 0" using k by auto
  define q where "q = pfunc False (u_fast (Frac j) (fast k p)) (fast k p)"
  have sl: "slow k (fast k p) = Inr q"
    using k nz by (simp add: slow_def slow_func_def fdiv_def q_def j_def)
  have "same_events q p"
    unfolding same_events_def
  proof
    fix st :: "'c state"
    have sp: "state_withSpan (withTime (\<lambda>t. t * Fraction k))
                (state_withSpan (withTime (\<lambda>t. t * j)) st) = st"
      using k by (simp add: state_withSpan_def State_def j_def withTime_def TimeSpan_def)
    have q1: "query (fast k p) (state_withSpan (withTime (\<lambda>t. t * j)) st) =
        bindE (query p st) (\<lambda>haps. Inr (map (\<lambda>h. hap_setContext (add_locations [] (hcontext h)) h)
            (map (hap_withSpan (withTime (\<lambda>t. t / Fraction k))) haps)))"
      by (cases "query p st") (simp_all add: fast_def query_pfunc query_fast_func k sp)
    have q2: "query q st =
        bindE (query (fast k p) (state_withSpan (withTime (\<lambda>t. t * j)) st))
          (\<lambda>haps. Inr (map (\<lambda>h. hap_setContext (add_locations [] (hcontext h)) h)
            (map (hap_withSpan (withTime (\<lambda>t. t / j))) haps)))"
      using j by (cases "query (fast k p) (state_withSpan (withTime (\<lambda>t. t * j)) st)")
        (simp_all add: q_def query_pfunc u_fast_def query_underscore query_fast_func)
    have tt: "withTime (\<lambda>t. t / j) (withTime (\<lambda>t. t / Fraction k) ts) = ts" for ts
      using k by (simp add: withTime_def TimeSpan_def j_def)
    have core: "hap_core (hap_withSpan (withTime (\<lambda>t. t / j))
          (hap_setContext c1 (hap_withSpan (withTime (\<lambda>t. t / Fraction k)) h))) = hap_core h"
      for h :: "'v hap" and c1
      by (cases "whole h") (simp_all add: hap_core_def tt)
    show "map_sum id (map hap_core) (query q st) = map_sum id (map hap_core) (query p st)"
      by (cases "query p st") (simp_all add: q2 q1 o_def core)
  qed
  with sl show "\<exists>q. slow k (fast k p) = Inr q \<and> same_events q p" by blast
next
  show "fast_func (Num 0) p = silence" by (simp add: fast_func_def)
next
  show "slow_func (Num 0) p = Inr silence" by (simp add: slow_func_def)
next
  show "same_events (fast (Num 0) p) silence"
    by (simp add: same_events_def fast_def query_pfunc fast_func_def silence_def gap_def Pattern_def)
next
  show "\<exists>q. slow (Num 0) p = Inr q \<and> same_events q silence"
    by (simp add: same_events_def slow_def slow_func_def query_pfunc silence_def gap_def Pattern_def)
qed

text \<open>
  The guard \<open>factor === 0\<close> of \<open>fast\<close> and \<open>slow\<close> holds for the number \<open>0\<close> only. A
  zero given as a fraction goes past it: \<open>slow\<close> then divides \<open>1\<close> by zero while
  building the pattern, and the pattern \<open>fast\<close> builds divides the times of its events
  by zero when it is queried.
\<close>

lemma slow_fraction_zero: "slow (Frac 0) p = Inl DivisionByZero"
  by (simp add: slow_def slow_func_def fdiv_def)

lemma u_slow_fraction_zero: "u_slow (Frac 0) p = Inl DivisionByZero"
  by (simp add: u_slow_def slow_func_def fdiv_def)

subsection \<open>Claims\<close>

text \<open>
  Claim C1. For every pattern built from the library's combinators and every query
  state, every event in the returned list has a part that intersects the query span,
  and whenever the event's whole is present, the part is contained in the whole
  (\<open>whole.begin \<le> part.begin \<le> part.end \<le> whole.end\<close>).

  \<open>zoom\<close> breaks both halves. It maps the whole and the part of an event each
  relative to the cycle in which that span begins, where its sibling \<open>fastGap\<close> places
  the whole relative to the part. \<open>pure("x").late(9/10).zoom(0, 1/2)\<close>, queried over
  \<open>[0, 1)\<close>, returns the part \<open>[0, 1)\<close> with the whole \<open>[4/5, 14/5)\<close>: the part is not
  within the whole. \<open>pure("x").zoom(3/2, 2)\<close>, queried over \<open>[0, 1)\<close>, returns the part
  \<open>[-1, 0)\<close>: it does not intersect the query span. The other combinators keep the
  invariant (theorem \<open>containment_kept\<close> above).
\<close>

theorem zoom_event_containment:
  "query (zoom True (Num 0) (Num (1 / 2)) (u_late (Num (9 / 10)) (pure ''x'')))
       (State (TimeSpan 0 1) ())
     = Inr [Hap (Some (TimeSpan (4 / 5) (14 / 5))) (TimeSpan 0 1) ''x'' \<lparr>locations = Some []\<rparr>]
   \<and> \<not> part_in_whole
         (Hap (Some (TimeSpan (4 / 5) (14 / 5))) (TimeSpan 0 1) ''x'' \<lparr>locations = Some []\<rparr>)
   \<and> query (zoom True (Num (3 / 2)) (Num 2) (pure ''x'')) (State (TimeSpan 0 1) ())
     = Inr [Hap (Some (TimeSpan (- 2) 0)) (TimeSpan (- 1) 0) ''x'' \<lparr>locations = Some []\<rparr>]
   \<and> \<not> intersects_span (TimeSpan 0 1)
         (Hap (Some (TimeSpan (- 2) 0)) (TimeSpan (- 1) 0) ''x'' \<lparr>locations = Some []\<rparr>)"
proof -
  have a: "query (zoom True (Num 0) (Num (1 / 2)) (u_late (Num (9 / 10)) (pure ''x'')))
       (State (TimeSpan 0 1) ())
     = Inr [Hap (Some (TimeSpan (4 / 5) (14 / 5))) (TimeSpan 0 1) ''x'' \<lparr>locations = Some []\<rparr>]"
    by code_simp
  have b: "query (zoom True (Num (3 / 2)) (Num 2) (pure ''x'')) (State (TimeSpan 0 1) ())
     = Inr [Hap (Some (TimeSpan (- 2) 0)) (TimeSpan (- 1) 0) ''x'' \<lparr>locations = Some []\<rparr>]"
    by code_simp
  have c: "\<not> intersects_span (TimeSpan 0 1)
         (Hap (Some (TimeSpan (- 2) 0)) (TimeSpan (- 1) 0) ''x'' \<lparr>locations = Some []\<rparr>)"
    by code_simp
  show ?thesis
    using a b c by (simp add: part_in_whole_def Hap_def TimeSpan_def)
qed

text \<open>
  Claim C2. Whenever the interval \<open>[b, e]\<close> is degenerate or out of range (\<open>b = e\<close>,
  \<open>b > e\<close>, \<open>b < 0\<close>, \<open>e < 0\<close>, \<open>b > 1\<close> or \<open>e > 1\<close>), \<open>compress(b, e, p)\<close> returns
  silence and raises no exception.

  The guard of \<open>compress\<close> tests \<open>b > e\<close>, not \<open>b \<ge> e\<close>: outside the guard it
  computes \<open>1 / (e - b)\<close>. For \<open>b = e\<close> within \<open>[0, 1]\<close> building the pattern throws
  (lemma \<open>compress_equal\<close> above; for the other cases of the claim, lemma
  \<open>compress_out_of_range\<close>).
\<close>

theorem compress_degenerate:
  "compress (Num (1 / 2)) (Num (1 / 2)) (pure ''x'' :: (string, unit) pattern) = Inl DivisionByZero"
  by (simp add: compress_def compress_func_def Let_def fdiv_def)

text \<open>
  Claim C3. \<open>pure("x").degradeBy(1).queryArc(0,1)\<close> returns the empty list, and
  \<open>pure("x").degradeBy(0).queryArc(0,1)\<close> returns exactly one event with value \<open>"x"\<close>;
  \<open>degradeBy(p)\<close> drops exactly the events whose random draw is \<open>< p\<close>.

  The source keeps an event when its draw is \<open>> p\<close> (lemma \<open>degradeByWith_signal_pure\<close>
  above), so it also drops a draw equal to \<open>p\<close>. The draw at time \<open>0\<close> is exactly \<open>0\<close>,
  and \<open>degradeBy(0)\<close> drops the event of the first cycle: both queries return the empty
  list.
\<close>

theorem degradeBy_pure_first_cycle:
  "queryArc (degradeBy 1 (pure ''x'')) 0 1 () [] = ([], [])
   \<and> queryArc (degradeBy 0 (pure ''x'')) 0 1 () [] = ([], [])"
proof -
  have a: "tbegin (span (State (TimeSpan 0 1) ())) \<le> tend (span (State (TimeSpan 0 1) ()))"
    by (simp add: State_def TimeSpan_def)
  have b: "tend (span (State (TimeSpan 0 1) ())) \<le> nextSam (tbegin (span (State (TimeSpan 0 1) ())))"
    by (simp add: State_def TimeSpan_def nextSam_def sam_def)
  have s: "sam (tbegin (span (State (TimeSpan 0 1) ()))) = 0"
    by (simp add: State_def TimeSpan_def sam_def)
  have "query (degradeByWith_func rand x (pure ''x'')) (State (TimeSpan 0 1) ()) = Inr []"
    if "0 \<le> x" for x
    using degradeByWith_signal_pure[OF a b, of timeToRand x "''x''"] that
    by (cases "query (degradeByWith_func rand x (pure ''x'')) (State (TimeSpan 0 1) ())")
       (simp_all add: s timeToRand_zero rand_def)
  then show ?thesis
    by (simp add: queryArc_def degradeBy_def query_pfunc degradeBy_func_def u_degradeByWith_def
        query_underscore)
qed

text \<open>
  Claim C4, as stated, fails for \<open>pace\<close>: on a pattern without steps \<open>pace\<close> returns
  the pattern as it is, not \<open>nothing\<close>. A steady signal paced to four steps still
  gives its event.
\<close>

theorem stepless_ops_counterexample:
  "steps (steady ''x'' :: (string, unit) pattern) = None
   \<and> queryArc (pace (Num 4) (steady ''x'')) 0 1 () []
       = ([Hap None (TimeSpan 0 1) ''x'' \<lparr>locations = Some []\<rparr>], [])
   \<and> queryArc (nothing :: (string, unit) pattern) 0 1 () [] = ([], [])"
  by (simp add: steady_def Pattern_def pace_def pace_func_def query_pfunc queryArc_def State_def
      hap_setContext_def Hap_def add_locations_def locations_or_empty_def empty_context_def
      nothing_def gap_def)

text \<open>
  Claim C4, amended. Applied (with a plain argument) to a pattern whose steps are
  undefined, \<open>take\<close>, \<open>drop\<close>, \<open>shrink\<close> and \<open>grow\<close> return \<open>nothing\<close>, the empty
  pattern with steps \<open>0\<close>, while \<open>pace\<close> returns the pattern unchanged (the same events,
  still no steps); no log message is emitted: none of these functions calls the
  logger, and querying the result leaves the log as it was.
\<close>

theorem stepless_ops:
  fixes pat :: "('v, 'c) pattern"
  assumes "steps pat = None"
  shows "take_p cs i pat = nothing
       \<and> drop_p cs i pat = nothing
       \<and> shrink cs a pat = Inr nothing
       \<and> grow cs a pat = Inr nothing
       \<and> pace_func t pat = pat
       \<and> same_events (pace t pat) pat
       \<and> steps (pace t pat) = None
       \<and> queryArc (take_p cs i pat) b e ctrl l = ([], l)
       \<and> queryArc (drop_p cs i pat) b e ctrl l = ([], l)"
proof -
  have tk: "take_p cs i pat = nothing"
    using assms by (simp add: take_p_def take_func_def pfunc_nothing)
  have dr: "drop_p cs i pat = nothing"
    using assms by (simp add: drop_p_def drop_func_def pfunc_nothing)
  have sh: "shrink cs a pat = Inr nothing"
    using assms by (simp add: shrink_def shrink_func_def hasSteps_def pfunc_nothing)
  have gr: "grow cs a pat = Inr nothing"
    using assms by (simp add: grow_def grow_func_def hasSteps_def pfunc_nothing)
  have pf: "pace_func t pat = pat"
    using assms by (simp add: pace_func_def)
  have pe: "same_events (pace t pat) pat"
    unfolding pace_def pf by (rule same_events_pfunc)
  have ps: "steps (pace t pat) = None"
    using assms by (simp add: pace_def pf pfunc_def Let_def withContext_def withHap_def withHaps_def Pattern_def)
  show ?thesis
    using tk dr sh gr pf pe ps by (simp add: queryArc_nothing)
qed

theorem stepless_ops_witness:
  "steps (signal (\<lambda>t. t) :: (rat, unit) pattern) = None
   \<and> take_p True (Num 2) (signal (\<lambda>t. t) :: (rat, unit) pattern) = nothing
   \<and> shrink True (Num 1) (signal (\<lambda>t. t) :: (rat, unit) pattern) = Inr nothing
   \<and> same_events (pace (Num 4) (signal (\<lambda>t. t) :: (rat, unit) pattern)) (signal (\<lambda>t. t))
   \<and> queryArc (drop_p True (Num 2) (signal (\<lambda>t. t) :: (rat, unit) pattern)) 0 1 () [] = ([], [])"
proof -
  have s: "steps (signal (\<lambda>t. t) :: (rat, unit) pattern) = None"
    by (simp add: signal_def Pattern_def)
  show ?thesis
    using stepless_ops [OF s, where cs = True and i = "Num 2" and a = "Num 1" and t = "Num 4"
        and b = 0 and e = 1 and ctrl = "()" and l = "[]"] s
    by blast
qed

text \<open>
  Claim C5, as stated, fails: \<open>appBoth\<close> cuts every whole down to its intersection
  with the cycle of the \<open>pure\<close> event. The pattern below has one event per two cycles;
  queried over the first cycle it gives the whole \<open>[0, 2)\<close>, and under
  \<open>pure(identity).appBoth\<close> the whole \<open>[0, 1)\<close>.
\<close>

theorem appBoth_pure_id_counterexample:
  "map_sum id (map hap_core)
     (query (appBoth True (pure id) (u_fast (Frac (1 / 2)) (pure ''x''))) (State (TimeSpan 0 1) ()))
   \<noteq> map_sum id (map hap_core)
     (query (u_fast (Frac (1 / 2)) (pure ''x'')) (State (TimeSpan 0 1) ()))"
  by code_simp

text \<open>
  Claim C5, amended. For every pattern \<open>p\<close> and every query state whose span lies
  within one cycle: an exception of \<open>p\<close>'s query is the exception of
  \<open>pure(identity).appBoth(p)\<close>; and when every event that \<open>p\<close> returns has its part
  inside the query span and its whole, when present, inside the cycle of the query,
  \<open>pure(identity).appBoth(p)\<close> returns the same events (same whole, part and value, in
  the same order) as \<open>p\<close> itself.
\<close>

theorem appBoth_pure_id:
  fixes p :: "('v, 'c) pattern"
  assumes "tbegin (span st) \<le> tend (span st)"
    and "tend (span st) \<le> nextSam (tbegin (span st))"
  shows "case query p st of
           Inl err \<Rightarrow> query (appBoth cs (pure id) p) st = Inl err
         | Inr haps \<Rightarrow>
             (\<forall>h\<in>set haps. inside (span st) (part h)
                 \<and> (\<forall>w. whole h = Some w \<longrightarrow> inside (wholeCycle (tbegin (span st))) w))
             \<longrightarrow> map_sum id (map hap_core) (query (appBoth cs (pure id) p) st)
                 = Inr (map hap_core haps)"
proof (cases "query p st")
  case (Inl err)
  then show ?thesis
    by (simp add: query_appBoth appWhole_def Pattern_def query_pure_single[OF assms])
next
  case (Inr haps)
  let ?hf = "Hap (Some (wholeCycle (tbegin (span st)))) (span st) (id :: 'v \<Rightarrow> 'v) empty_context"
  have "map_sum id (map hap_core) (query (appBoth cs (pure id) p) st) = Inr (map hap_core haps)"
    if ok: "\<forall>h\<in>set haps. inside (span st) (part h)
                 \<and> (\<forall>w. whole h = Some w \<longrightarrow> inside (wholeCycle (tbegin (span st))) w)"
  proof -
    obtain ys where ys: "mapE (appWhole_apply whole_both ?hf) haps = Inr (map Some ys)"
      "map hap_core ys = map hap_core haps"
      using mapE_apply_inside[of ?hf "span st" "wholeCycle (tbegin (span st))" haps] ok
      by (auto simp: Hap_def)
    show ?thesis
      using Inr ys
      by (simp add: query_appBoth appWhole_def Pattern_def query_pure_single[OF assms] flatMapE_def)
  qed
  then show ?thesis using Inr by simp
qed

theorem appBoth_pure_id_witness:
  "tbegin (span (State (TimeSpan 0 1) ())) \<le> tend (span (State (TimeSpan 0 1) ()))
   \<and> tend (span (State (TimeSpan 0 1) ())) \<le> nextSam (tbegin (span (State (TimeSpan 0 1) ())))
   \<and> query (pure ''x'') (State (TimeSpan 0 1) ())
       = Inr [Hap (Some (TimeSpan 0 1)) (TimeSpan 0 1) ''x'' empty_context]
   \<and> inside (TimeSpan 0 1) (TimeSpan 0 1)
   \<and> map_sum id (map hap_core) (query (appBoth True (pure id) (pure ''x'')) (State (TimeSpan 0 1) ()))
       = Inr [(Some (TimeSpan 0 1), TimeSpan 0 1, ''x'')]"
proof -
  have a: "tbegin (span (State (TimeSpan 0 1) ())) \<le> tend (span (State (TimeSpan 0 1) ()))"
    by (simp add: State_def TimeSpan_def)
  have b: "tend (span (State (TimeSpan 0 1) ())) \<le> nextSam (tbegin (span (State (TimeSpan 0 1) ())))"
    by (simp add: State_def TimeSpan_def nextSam_def sam_def)
  have q: "query (pure ''x'') (State (TimeSpan 0 1) ())
       = Inr [Hap (Some (TimeSpan 0 1)) (TimeSpan 0 1) ''x'' empty_context]"
    by code_simp
  have i: "inside (TimeSpan 0 1) (TimeSpan 0 1)"
    by (simp add: inside_def TimeSpan_def)
  show ?thesis
    using appBoth_pure_id [OF a b, where p = "pure ''x''" and cs = True] a b q i
    by (simp add: State_def wholeCycle_def sam_def nextSam_def Hap_def TimeSpan_def hap_core_def)
qed

text \<open>
  Claim C6, as stated, fails for a single pattern: \<open>fastcat\<close> of one pattern is that
  pattern, with its own steps.
\<close>

theorem fastcat_steps_counterexample:
  "[fastcat True [pure ''a'', pure ''b'' :: (string, unit) pattern]] \<noteq> []
   \<and> steps (fastcat True [fastcat True [pure ''a'', pure ''b'' :: (string, unit) pattern]])
       \<noteq> Some (of_nat (length [fastcat True [pure ''a'', pure ''b'' :: (string, unit) pattern]]))"
  by (simp add: fastcat_def slowcat_def Let_def setSteps_def Pattern_def)

text \<open>
  Claim C6, amended. For every list of patterns, \<open>fastcat\<close> is equivalent to
  \<open>slowcat\<close> of the list made \<open>fast\<close> by the length \<open>n\<close> of the list; for \<open>n \<ge> 2\<close>
  the steps of the result are \<open>n\<close>; \<open>fastcat\<close> of a single pattern is that pattern
  itself, steps included.
\<close>

theorem fastcat_slowcat_fast:
  fixes pats :: "('v, 'c) pattern list"
  shows "same_events (fastcat cs pats) (fast (Num (of_nat (length pats))) (slowcat cs pats))
       \<and> (2 \<le> length pats \<longrightarrow> steps (fastcat cs pats) = Some (of_nat (length pats)))
       \<and> fastcat cs [p] = p"
proof (intro conjI impI)
  show "same_events (fastcat cs pats) (fast (Num (of_nat (length pats))) (slowcat cs pats))"
  proof (cases "length pats > 1")
    case True
    have "same_events (fast (Num (of_nat (length pats))) (slowcat cs pats))
            (fast_func (Num (of_nat (length pats))) (slowcat cs pats))"
      unfolding fast_def by (rule same_events_pfunc)
    moreover have "same_events (fastcat cs pats) (fast_func (Num (of_nat (length pats))) (slowcat cs pats))"
      using True by (simp add: same_events_def fastcat_def Let_def setSteps_def Pattern_def u_fast_def
          query_underscore)
    ultimately show ?thesis by (meson same_events_sym same_events_trans)
  next
    case False
    then consider "pats = []" | q where "pats = [q]"
      by (cases pats) (auto simp: Suc_le_eq)
    then show ?thesis
    proof cases
      case 1
      then show ?thesis
        by (simp add: same_events_def fastcat_def slowcat_def setSteps_def Pattern_def fast_def query_pfunc
            fast_func_def silence_def gap_def splitQueries_def flatMapE_def slowcat_query_def mod_index_def)
          
    next
      case 2
      then show ?thesis
        using same_events_fast_one[of q] by (simp add: fastcat_def slowcat_def same_events_sym)
    qed
  qed
next
  assume "2 \<le> length pats"
  then show "steps (fastcat cs pats) = Some (of_nat (length pats))"
    by (simp add: fastcat_def Let_def setSteps_def Pattern_def)
next
  show "fastcat cs [p] = p" by (simp add: fastcat_def slowcat_def)
qed

theorem fastcat_slowcat_fast_witness:
  "2 \<le> length [pure ''a'', pure ''b'' :: (string, unit) pattern]
   \<and> steps (fastcat True [pure ''a'', pure ''b'' :: (string, unit) pattern]) = Some 2
   \<and> same_events (fastcat True [pure ''a'', pure ''b'' :: (string, unit) pattern])
         (fast (Num 2) (slowcat True [pure ''a'', pure ''b'']))"
  using fastcat_slowcat_fast [of True "[pure ''a'', pure ''b'' :: (string, unit) pattern]"
      "pure ''a''"]
  by simp blast

text \<open>
  Claim C7. For every list of \<open>n \<ge> 2\<close> patterns and every query span lying within a
  single cycle \<open>c = s.begin.sam()\<close>, \<open>slowcat\<close> answers the query from pattern
  \<open>i = c mod n\<close>, shifted by \<open>offset = c.floor() - (c / n).floor()\<close>: the query span is
  mapped back by \<open>offset\<close> before querying the \<open>i\<close>-th pattern, and the times of the
  returned events are shifted forward by \<open>offset\<close>.
\<close>

theorem slowcat_cycle:
  fixes pats :: "('v, 'c) pattern list"
  assumes "2 \<le> length pats"
    and "tbegin (span st) \<le> tend (span st)"
    and "tend (span st) \<le> nextSam (tbegin (span st))"
  shows "query (slowcat cs pats) st =
     (let c = sam (tbegin (span st));
          i = nat (\<lfloor>c\<rfloor> mod int (length pats));
          offset = of_int \<lfloor>c\<rfloor> - of_int \<lfloor>c / of_nat (length pats)\<rfloor>
      in bindE (query (pats ! i) (setSpan (withTime (\<lambda>t. t - offset) (span st)) st))
           (\<lambda>haps. Inr (map (hap_withSpan (withTime (\<lambda>t. t + offset))) haps)))"
proof -
  have n: "0 < length pats" using assms(1) by linarith
  have sc: "slowcat cs pats = setSteps (if cs then lcm_steps (map steps pats) else None)
               (splitQueries (Pattern (slowcat_query pats) None))"
    using assms(1) by (auto simp: slowcat_def split: list.splits)
  have i: "nat (\<lfloor>tbegin (span st)\<rfloor> mod int (length pats)) < length pats"
    using n by (simp add: nat_less_iff)
  have fl: "\<lfloor>sam (tbegin (span st)) / of_nat (length pats)\<rfloor> = \<lfloor>tbegin (span st) / of_nat (length pats)\<rfloor>"
    using n by (simp add: floor_div_nat sam_def)
  have "query (slowcat cs pats) st = slowcat_query pats st"
    by (simp add: sc setSteps_def Pattern_def query_splitQueries_single[OF assms(2,3)])
  also have "\<dots> = (let c = sam (tbegin (span st));
          i = nat (\<lfloor>c\<rfloor> mod int (length pats));
          offset = of_int \<lfloor>c\<rfloor> - of_int \<lfloor>c / of_nat (length pats)\<rfloor>
      in bindE (query (pats ! i) (setSpan (withTime (\<lambda>t. t - offset) (span st)) st))
           (\<lambda>haps. Inr (map (hap_withSpan (withTime (\<lambda>t. t + offset))) haps)))"
    using n i
    by (simp add: slowcat_query_def Let_def mod_index_def fdiv_def fl query_withHapTime)
      (simp add: sam_def)
  finally show ?thesis .
qed

theorem slowcat_cycle_witness:
  "2 \<le> length [pure ''a'', pure ''b'', pure ''c'' :: (string, unit) pattern]
   \<and> tbegin (span (State (TimeSpan 3 4) ())) \<le> tend (span (State (TimeSpan 3 4) ()))
   \<and> tend (span (State (TimeSpan 3 4) ())) \<le> nextSam (tbegin (span (State (TimeSpan 3 4) ())))
   \<and> query (slowcat True [pure ''a'', pure ''b'', pure ''c'' :: (string, unit) pattern])
         (State (TimeSpan 3 4) ())
       = Inr [Hap (Some (TimeSpan 3 4)) (TimeSpan 3 4) ''a'' empty_context]"
  using slowcat_cycle [of "[pure ''a'', pure ''b'', pure ''c'' :: (string, unit) pattern]"
      "State (TimeSpan 3 4) ()" True]
  by (simp add: State_def TimeSpan_def nextSam_def sam_def Let_def pure_def Pattern_def setSpan_def
      withTime_def spanCycles_def cycles_from.simps[of 1 2] cycles_from_same hap_withSpan_def Hap_def wholeCycle_def)

text \<open>
  Claim C8. For every pattern \<open>p\<close> and every non-zero rational \<open>k\<close>,
  \<open>p.fast(k).slow(k)\<close> is equivalent to \<open>p\<close> (the same events with identical wholes,
  parts and values for every query); and \<open>fast(0)\<close> and \<open>slow(0)\<close> each return silence.

  The inverse law holds, and so does the zero case for the number \<open>0\<close> (theorem
  \<open>fast_slow_inverse\<close> above). But the guard of \<open>fast\<close> and \<open>slow\<close> is
  \<open>factor === 0\<close>, which a zero given as a fraction does not pass, where \<open>pace\<close> tests
  its steps with \<open>eq(Fraction(0))\<close>. With the fraction zero, \<open>slow\<close> throws
  \<open>Division by Zero\<close> while it builds the pattern, and the pattern that \<open>fast\<close> builds
  throws it when queried, instead of being silent. The library passes this zero
  itself: \<open>pace(0)\<close> calls \<open>_fast\<close> with the fraction \<open>0 / steps\<close>, and \<open>zip\<close> calls
  \<open>_slow\<close> with the steps of each argument, which for \<open>nothing\<close> are the fraction zero.
\<close>

theorem fast_slow_fraction_zero:
  "slow (Frac 0) (pure ''x'' :: (string, unit) pattern) = Inl DivisionByZero
   \<and> query (fast (Frac 0) (pure ''x'')) (State (TimeSpan 0 1) ()) = Inl DivisionByZero
   \<and> queryArc (fast (Frac 0) (pure ''x'')) 0 1 () [] = ([], [(''[query]: Division by Zero'', ''error'')])
   \<and> queryArc (silence :: (string, unit) pattern) 0 1 () [] = ([], [])
   \<and> queryArc (pace (Num 0) (pure ''x'')) 0 1 () [] = ([], [(''[query]: Division by Zero'', ''error'')])
   \<and> zip_p True [nothing :: (string, unit) pattern] = Inl DivisionByZero"
proof -
  have a: "slow (Frac 0) (pure ''x'' :: (string, unit) pattern) = Inl DivisionByZero"
    by (simp add: slow_def slow_func_def fdiv_def)
  have b: "query (fast (Frac 0) (pure ''x'')) (State (TimeSpan 0 1) ()) = Inl DivisionByZero"
    by code_simp
  have c: "queryArc (fast (Frac 0) (pure ''x'')) 0 1 () [] = ([], [(''[query]: Division by Zero'', ''error'')])"
    by code_simp
  have d: "queryArc (silence :: (string, unit) pattern) 0 1 () [] = ([], [])"
    by (simp add: queryArc_def silence_def gap_def Pattern_def)
  have e: "queryArc (pace (Num 0) (pure ''x'')) 0 1 () [] = ([], [(''[query]: Division by Zero'', ''error'')])"
    by code_simp
  have f: "zip_p True [nothing :: (string, unit) pattern] = Inl DivisionByZero"
    by (simp add: zip_p_def hasSteps_def nothing_def gap_def Pattern_def jsnum_of_steps_def
        u_slow_fraction_zero)
  show ?thesis using a b c d e f by simp
qed



text \<open>
  Claim C10. \<open>polymeter\<close> discards every argument whose steps are undefined before
  aligning the rest: the result is that of the same call with those arguments removed;
  if no argument has steps the result is silence, and if the lcm of the remaining step
  counts is \<open>0\<close> the result is \<open>nothing\<close>. \<open>zip\<close> likewise filters out the arguments
  without steps.
\<close>

theorem polymeter_filters:
  fixes args :: "('v, 'c) pattern list"
  shows "polymeter cs args = polymeter cs (filter hasSteps args)
       \<and> (filter hasSteps args1 = [] \<longrightarrow> polymeter cs args1 = Inr silence)
       \<and> (lcm_steps (map steps (filter hasSteps args2)) = Some 0 \<longrightarrow> polymeter cs args2 = Inr nothing)
       \<and> zip_p cs args = zip_p cs (filter hasSteps args)"
proof (intro conjI impI)
  show "polymeter cs args = polymeter cs (filter hasSteps args)"
    by (simp add: polymeter_def)
  show "zip_p cs args = zip_p cs (filter hasSteps args)"
    by (simp add: zip_p_def)
next
  assume "filter hasSteps args1 = []"
  then show "polymeter cs args1 = Inr silence" by (simp add: polymeter_def)
next
  assume a: "lcm_steps (map steps (filter hasSteps args2)) = Some 0"
  then have "filter hasSteps args2 \<noteq> []" by (auto simp: lcm_steps_def)
  then show "polymeter cs args2 = Inr nothing" using a by (simp add: polymeter_def Let_def)
qed

theorem polymeter_filters_witness:
  "filter hasSteps [steady ''x'' :: (string, unit) pattern] = []
   \<and> polymeter True [steady ''x'' :: (string, unit) pattern] = Inr silence
   \<and> lcm_steps (map steps (filter hasSteps [steady ''x'', nothing, pure ''y'' :: (string, unit) pattern])) = Some 0
   \<and> polymeter True [steady ''x'', nothing, pure ''y'' :: (string, unit) pattern] = Inr nothing
   \<and> polymeter True [steady ''x'', pure ''y'' :: (string, unit) pattern] = polymeter True [pure ''y'']"
proof -
  have a: "filter hasSteps [steady ''x'' :: (string, unit) pattern] = []"
    by (simp add: hasSteps_def steady_def Pattern_def)
  have f: "filter hasSteps [steady ''x'', nothing, pure ''y'' :: (string, unit) pattern] = [nothing, pure ''y'']"
    by (simp add: hasSteps_def steady_def Pattern_def nothing_def gap_def pure_def)
  have b: "lcm_steps (map steps (filter hasSteps [steady ''x'', nothing, pure ''y'' :: (string, unit) pattern])) = Some 0"
    unfolding f
    by (simp add: lcm_steps_def nothing_def gap_def pure_def Pattern_def lcm_rat_def rat_number_collapse)
  have g: "filter hasSteps [steady ''x'', pure ''y'' :: (string, unit) pattern] = [pure ''y'']"
    by (simp add: hasSteps_def steady_def Pattern_def pure_def)
  show ?thesis
    using polymeter_filters [of True "[steady ''x'', pure ''y'' :: (string, unit) pattern]"
        "[steady ''x'' :: (string, unit) pattern]"
        "[steady ''x'', nothing, pure ''y'' :: (string, unit) pattern]"] a b g
    by simp
qed

end
